theory Spec2Isabelle
  imports Main "HOL-Library.Multiset" "HOL-Library.List_Lexorder" "HOL-Library.Char_ord"
begin

section \<open>Data model\<close>

text \<open>
  A key press as \<open>term.inkey()\<close> of the terminal library delivers it: a string that also
  carries the name of a special key (\<open>KEY_LEFT\<close>, \<open>KEY_RIGHT\<close>, ...), or no name for an
  ordinary character.
\<close>

record keystroke =
  name :: "string option"
  str :: string

text \<open>
  Everything the program prints, reads or writes, in the order it happens. The items are
  of any type \<open>'a\<close> (lines of text in \<open>main\<close>).
\<close>

datatype 'a event =
    Prompt 'a 'a
  | Key keystroke
  | Echo_left
  | Echo_right
  | Echo_q
  | Sorted_header
  | Rank nat 'a
  | Save_prompt
  | Echo_y
  | Echo_n
  | Filename_prompt
  | Line string
  | File_written string "'a list"
  | Saved_msg string

datatype exn = IndexError | OSError | EOFError

text \<open>
  How a call ends: it returns a value, or \<open>sys.exit()\<close> raised \<open>SystemExit\<close> with its
  optional status, or another exception was raised. A call that never returns has no
  result at all: the functions below give \<open>None\<close> for it.
\<close>

datatype 'v result = Returned 'v | SystemExit "nat option" | Raised exn

record 'a world =
  hist :: "'a event list"
  drawn :: nat

text \<open>
  The person at the terminal: the key delivered by the next \<open>term.inkey()\<close>, given all
  that has been printed and typed so far. The random generator: the sequence of its raw
  draws.
\<close>

type_synonym 'a terminal = "'a event list \<Rightarrow> keystroke"
type_synonym random = "nat \<Rightarrow> nat"

definition emit :: "'a event \<Rightarrow> 'a world \<Rightarrow> 'a world" where
  "emit e w = w\<lparr>hist := hist w @ [e]\<rparr>"

definition inkey :: "'a terminal \<Rightarrow> 'a world \<Rightarrow> keystroke \<times> 'a world" where
  "inkey tm w = (let k = tm (hist w) in (k, emit (Key k) w))"

definition lower_char :: "char \<Rightarrow> char" where
  "lower_char c =
     (case map_of (zip ''ABCDEFGHIJKLMNOPQRSTUVWXYZ'' ''abcdefghijklmnopqrstuvwxyz'') c of
        Some l \<Rightarrow> l
      | None \<Rightarrow> c)"

definition lower :: "string \<Rightarrow> string" where
  "lower s = map lower_char s"

section \<open>The comparator gateway\<close>

partial_function (option) input_loop ::
  "'a terminal \<Rightarrow> 'a world \<Rightarrow> (string result \<times> 'a world) option" where
  "input_loop tm w =
     (let key = fst (inkey tm w); w1 = snd (inkey tm w) in
        if name key = Some ''KEY_LEFT'' then Some (Returned ''left'', emit Echo_left w1)
        else if name key = Some ''KEY_RIGHT'' then Some (Returned ''right'', emit Echo_right w1)
        else if lower (str key) = ''q'' then Some (SystemExit None, emit Echo_q w1)
        else input_loop tm w1)"

definition input_handler ::
  "'a terminal \<Rightarrow> 'a \<Rightarrow> 'a \<Rightarrow> 'a world \<Rightarrow> (string result \<times> 'a world) option" where
  "input_handler tm i j w = input_loop tm (emit (Prompt i j) w)"

section \<open>Sequencing calls that may not return\<close>

definition and_then ::
  "('v result \<times> 'w) option \<Rightarrow> ('v \<Rightarrow> 'w \<Rightarrow> ('u result \<times> 'w) option) \<Rightarrow> ('u result \<times> 'w) option" where
  "and_then m f =
     (case m of None \<Rightarrow> None
      | Some (r, w) \<Rightarrow>
          (case r of Returned v \<Rightarrow> f v w
           | SystemExit c \<Rightarrow> Some (SystemExit c, w)
           | Raised e \<Rightarrow> Some (Raised e, w)))"

lemma and_then_mono [partial_function_mono]:
  assumes "mono_option B" and "\<And>v w. mono_option (\<lambda>f. C v w f)"
  shows "mono_option (\<lambda>f. and_then (B f) (\<lambda>v w. C v w f))"
proof -
  have eq: "\<And>m f. and_then m f = Option.bind m (\<lambda>(r, w). case r of Returned v \<Rightarrow> f v w
           | SystemExit c \<Rightarrow> Some (SystemExit c, w)
           | Raised e \<Rightarrow> Some (Raised e, w))"
    by (auto simp: and_then_def split: option.splits result.splits)
  show ?thesis
    unfolding eq
    apply (rule bind_mono [OF assms(1)])
    subgoal for y
      by (cases y; cases "fst y") (simp_all add: assms(2) option.const_mono)
    done
qed

lemma and_then_weak_cong [cong]: "m = m' \<Longrightarrow> and_then m f = and_then m' f"
  by simp

lemma and_then_simps [simp]:
  "and_then None f = None"
  "and_then (Some (Returned v, w)) f = f v w"
  "and_then (Some (SystemExit c, w)) f = Some (SystemExit c, w)"
  "and_then (Some (Raised e, w)) f = Some (Raised e, w)"
  by (simp_all add: and_then_def)

section \<open>The interactive merge sorter\<close>

partial_function (option) merge_loop ::
  "'a terminal \<Rightarrow> 'a list \<Rightarrow> 'a list \<Rightarrow> nat \<Rightarrow> nat \<Rightarrow> 'a list \<Rightarrow> 'a world
     \<Rightarrow> ('a list result \<times> 'a world) option" where
  "merge_loop tm left right i j result w =
     (if i < length left \<and> j < length right then
        and_then (input_handler tm (left ! i) (right ! j) w) (\<lambda>choice w1.
          if choice = ''left'' then merge_loop tm left right (i + 1) j (result @ [left ! i]) w1
          else if choice = ''right'' then merge_loop tm left right i (j + 1) (result @ [right ! j]) w1
          else merge_loop tm left right i j result w1)
      else Some (Returned (result @ drop i left @ drop j right), w))"

definition merge_with_preference ::
  "'a terminal \<Rightarrow> 'a list \<Rightarrow> 'a list \<Rightarrow> 'a world \<Rightarrow> ('a list result \<times> 'a world) option" where
  "merge_with_preference tm left right w = merge_loop tm left right 0 0 [] w"

definition randbelow :: "random \<Rightarrow> nat \<Rightarrow> 'a world \<Rightarrow> nat \<times> 'a world" where
  "randbelow rnd n w = (rnd (drawn w) mod n, w\<lparr>drawn := drawn w + 1\<rparr>)"

primrec shuffle_from :: "random \<Rightarrow> nat \<Rightarrow> 'a list \<Rightarrow> 'a world \<Rightarrow> 'a list \<times> 'a world" where
  "shuffle_from rnd 0 x w = (x, w)"
| "shuffle_from rnd (Suc k) x w =
     (let i = Suc k; j = fst (randbelow rnd (i + 1) w); w1 = snd (randbelow rnd (i + 1) w)
      in shuffle_from rnd k (x[i := x ! j, j := x ! i]) w1)"

definition shuffle :: "random \<Rightarrow> 'a list \<Rightarrow> 'a world \<Rightarrow> 'a list \<times> 'a world" where
  "shuffle rnd x w = shuffle_from rnd (length x - 1) x w"

partial_function (option) head_to_head_sorter ::
  "'a terminal \<Rightarrow> random \<Rightarrow> 'a list \<Rightarrow> 'a world \<Rightarrow> ('a list result \<times> 'a world) option" where
  "head_to_head_sorter tm rnd items w =
     (if length items = 1 then Some (Returned items, w)
      else
        (let items' = fst (shuffle rnd items w); w0 = snd (shuffle rnd items w);
             mid = length items' div 2 in
           and_then (head_to_head_sorter tm rnd (take mid items') w0) (\<lambda>left w1.
           and_then (head_to_head_sorter tm rnd (drop mid items') w1) (\<lambda>right w2.
           merge_with_preference tm left right w2))))"

section \<open>The program around the sorter\<close>

text \<open>
  What \<open>main\<close> reads from outside the terminal: the command line, the text files that
  can be opened for reading (with their lines), the names that can be opened for writing,
  and the line that \<open>input()\<close> reads, if any.
\<close>

record 'a system =
  argv :: "string list"
  files :: "string \<Rightarrow> 'a list option"
  writable :: "string \<Rightarrow> bool"
  stdin_line :: "'a event list \<Rightarrow> string option"

partial_function (option) save_loop ::
  "'a terminal \<Rightarrow> 'a system \<Rightarrow> 'a list \<Rightarrow> 'a world \<Rightarrow> (unit result \<times> 'a world) option" where
  "save_loop tm os sorted_items w =
     (let save = fst (inkey tm w); w1 = snd (inkey tm w) in
        if lower (str save) = ''y'' then
          (let w2 = emit Filename_prompt (emit Echo_y w1) in
             case stdin_line os (hist w2) of
               None \<Rightarrow> Some (Raised EOFError, w2)
             | Some save_filename \<Rightarrow>
                 (let w3 = emit (Line save_filename) w2 in
                    if writable os save_filename then
                      Some (Returned (),
                            emit (Saved_msg save_filename)
                              (emit (File_written save_filename sorted_items) w3))
                    else Some (Raised OSError, w3)))
        else if lower (str save) = ''n'' then Some (Returned (), emit Echo_n w1)
        else save_loop tm os sorted_items w1)"

definition print_ranking :: "'a list \<Rightarrow> 'a world \<Rightarrow> 'a world" where
  "print_ranking sorted_items w =
     fold (\<lambda>(i, item). emit (Rank (i + 1) item)) (enumerate 0 sorted_items) w"

definition main ::
  "'a terminal \<Rightarrow> random \<Rightarrow> 'a system \<Rightarrow> 'a world \<Rightarrow> (unit result \<times> 'a world) option" where
  "main tm rnd os w =
     (if length (argv os) \<le> 1 then Some (Raised IndexError, w)
      else
        (let filename = argv os ! 1 in
           case files os filename of
             None \<Rightarrow> Some (Raised OSError, w)
           | Some items \<Rightarrow>
               and_then (head_to_head_sorter tm rnd items w) (\<lambda>sorted_items w1.
                 save_loop tm os sorted_items
                   (emit Save_prompt (print_ranking sorted_items (emit Sorted_header w1))))))"

text \<open>
  The status with which the interpreter ends the process: zero after a normal return,
  the argument of \<open>sys.exit\<close> (zero when there is none), one after any other exception.
\<close>

fun exit_status :: "'v result \<Rightarrow> nat" where
  "exit_status (Returned v) = 0"
| "exit_status (SystemExit None) = 0"
| "exit_status (SystemExit (Some n)) = n"
| "exit_status (Raised e) = 1"

definition initial_world :: "'a world" where
  "initial_world = \<lparr>hist = [], drawn = 0\<rparr>"

text \<open>
  The script itself: \<open>main\<close> is run in a fresh process, which ends with the status of
  how \<open>main\<close> ended.
\<close>

definition run_script ::
  "'a terminal \<Rightarrow> random \<Rightarrow> 'a system \<Rightarrow> (nat \<times> 'a world) option" where
  "run_script tm rnd os =
     (case main tm rnd os initial_world of
        None \<Rightarrow> None
      | Some (r, w) \<Rightarrow> Some (exit_status r, w))"

section \<open>Vocabulary of the properties\<close>

definition is_left :: "keystroke \<Rightarrow> bool" where
  "is_left k = (name k = Some ''KEY_LEFT'')"

definition is_right :: "keystroke \<Rightarrow> bool" where
  "is_right k = (name k = Some ''KEY_RIGHT'')"

definition is_quit :: "keystroke \<Rightarrow> bool" where
  "is_quit k =
     (name k \<noteq> Some ''KEY_LEFT'' \<and> name k \<noteq> Some ''KEY_RIGHT'' \<and> lower (str k) = ''q'')"

definition recognized :: "keystroke \<Rightarrow> bool" where
  "recognized k = (is_left k \<or> is_right k \<or> is_quit k)"

text \<open>What the first recognized key decides, and what is echoed for it.\<close>

definition decision_of :: "keystroke \<Rightarrow> string result" where
  "decision_of k =
     (if is_left k then Returned ''left''
      else if is_right k then Returned ''right''
      else SystemExit None)"

definition echo_of :: "keystroke \<Rightarrow> 'a event" where
  "echo_of k = (if is_left k then Echo_left else if is_right k then Echo_right else Echo_q)"

text \<open>The world after \<open>n\<close> more keys have been read, and the \<open>n\<close>-th key to come.\<close>

primrec after_keys :: "'a terminal \<Rightarrow> nat \<Rightarrow> 'a world \<Rightarrow> 'a world" where
  "after_keys tm 0 w = w"
| "after_keys tm (Suc n) w = after_keys tm n (snd (inkey tm w))"

definition nth_key :: "'a terminal \<Rightarrow> nat \<Rightarrow> 'a world \<Rightarrow> keystroke" where
  "nth_key tm n w = fst (inkey tm (after_keys tm n w))"

fun is_prompt :: "'a event \<Rightarrow> bool" where
  "is_prompt (Prompt i j) = True"
| "is_prompt e = False"

text \<open>The comparator invocations among some events: one prompt is printed per call.\<close>

definition comparisons :: "'a event list \<Rightarrow> nat" where
  "comparisons evs = length (filter is_prompt evs)"

text \<open>The events of a comparison that is answered, and the output of a completed sort.\<close>

fun comparison_event :: "'a event \<Rightarrow> bool" where
  "comparison_event (Prompt i j) = True"
| "comparison_event (Key k) = (\<not> is_quit k)"
| "comparison_event Echo_left = True"
| "comparison_event Echo_right = True"
| "comparison_event e = False"

fun completion_output :: "'a event \<Rightarrow> bool" where
  "completion_output Sorted_header = True"
| "completion_output (Rank n x) = True"
| "completion_output Save_prompt = True"
| "completion_output (File_written f xs) = True"
| "completion_output (Saved_msg f) = True"
| "completion_output e = False"

text \<open>
  What a call may have added to the history, by how it ended: after a return, only
  comparisons that were answered; after \<open>sys.exit()\<close>, such comparisons and then, last,
  the quit key and its echo.
\<close>

definition outcome :: "'v result \<Rightarrow> 'a event list \<Rightarrow> bool" where
  "outcome r evs =
     (case r of
        Returned v \<Rightarrow> list_all comparison_event evs
      | SystemExit c \<Rightarrow>
          c = None \<and>
          (\<exists>evs' k. evs = evs' @ [Key k, Echo_q] \<and> is_quit k \<and> list_all comparison_event evs')
      | Raised e \<Rightarrow> False)"

text \<open>
  The person keeps answering: from any point on, a recognized key comes at some time; or
  so at least until the save prompt has been shown, and from then on a \<open>y\<close> or an
  \<open>n\<close> comes at some time.
\<close>

definition responsive :: "'a terminal \<Rightarrow> bool" where
  "responsive tm = (\<forall>w. \<exists>n. recognized (nth_key tm n w))"

definition save_answer :: "keystroke \<Rightarrow> bool" where
  "save_answer k = (lower (str k) = ''y'' \<or> lower (str k) = ''n'')"

definition answers_while_sorting :: "'a terminal \<Rightarrow> bool" where
  "answers_while_sorting tm =
     (\<forall>w. Save_prompt \<notin> set (hist w) \<longrightarrow> (\<exists>n. recognized (nth_key tm n w)))"

definition answers_save_prompt :: "'a terminal \<Rightarrow> bool" where
  "answers_save_prompt tm =
     (\<forall>w. Save_prompt \<in> set (hist w) \<longrightarrow> (\<exists>n. save_answer (nth_key tm n w)))"

text \<open>Test doubles: keys, terminals and random sequences for concrete runs.\<close>

definition key_left :: keystroke where
  "key_left = \<lparr>name = Some ''KEY_LEFT'', str = []\<rparr>"

definition key_right :: keystroke where
  "key_right = \<lparr>name = Some ''KEY_RIGHT'', str = []\<rparr>"

definition key_char :: "char \<Rightarrow> keystroke" where
  "key_char c = \<lparr>name = None, str = [c]\<rparr>"

definition key_q :: keystroke where
  "key_q = \<lparr>name = None, str = ''q''\<rparr>"

fun is_key :: "'a event \<Rightarrow> bool" where
  "is_key (Key k) = True"
| "is_key e = False"

text \<open>
  A person who types the keys \<open>ks\<close> in this order, whatever is shown, and then \<open>k\<close> for
  ever; a random generator that draws \<open>ds\<close> and then zeros.
\<close>

definition typed :: "keystroke list \<Rightarrow> keystroke \<Rightarrow> 'a terminal" where
  "typed ks k h = (let n = length (filter is_key h) in if n < length ks then ks ! n else k)"

definition draws :: "nat list \<Rightarrow> random" where
  "draws ds n = (if n < length ds then ds ! n else 0)"

text \<open>A person who answers the save prompt, once it is shown, with the key \<open>k\<close>.\<close>

definition then_answer :: "'a terminal \<Rightarrow> keystroke \<Rightarrow> 'a terminal" where
  "then_answer tm k h = (if Save_prompt \<in> set h then k else tm h)"

text \<open>A command line naming one readable file with the given lines.\<close>

definition one_file :: "string \<Rightarrow> 'a list \<Rightarrow> 'a system" where
  "one_file filename items =
     \<lparr>argv = [''head_to_head_sorter.py'', filename],
      files = (\<lambda>f. if f = filename then Some items else None),
      writable = (\<lambda>f. True),
      stdin_line = (\<lambda>h. Some ''ranking.txt'')\<rparr>"

text \<open>
  A decision source that answers by a relation \<open>lt\<close>: left exactly when the left item of
  the last prompt precedes the right one.
\<close>

definition scripted :: "('a \<Rightarrow> 'a \<Rightarrow> bool) \<Rightarrow> 'a terminal" where
  "scripted lt h =
     (case rev h of
        Prompt i j # _ \<Rightarrow> if lt i j then key_left else key_right
      | _ \<Rightarrow> key_right)"

definition answers_by :: "('a \<Rightarrow> 'a \<Rightarrow> bool) \<Rightarrow> 'a terminal \<Rightarrow> bool" where
  "answers_by lt tm =
     (\<forall>h i j. if lt i j then is_left (tm (h @ [Prompt i j]))
              else is_right (tm (h @ [Prompt i j])))"

definition strict_total_order :: "('a \<Rightarrow> 'a \<Rightarrow> bool) \<Rightarrow> bool" where
  "strict_total_order lt =
     ((\<forall>x. \<not> lt x x) \<and> (\<forall>x y z. lt x y \<longrightarrow> lt y z \<longrightarrow> lt x z) \<and>
      (\<forall>x y. x \<noteq> y \<longrightarrow> lt x y \<or> lt y x))"

definition sorted_by :: "('a \<Rightarrow> 'a \<Rightarrow> bool) \<Rightarrow> 'a list \<Rightarrow> bool" where
  "sorted_by lt xs = sorted_wrt (\<lambda>x y. \<not> lt y x) xs"

definition decisive :: "'a terminal \<Rightarrow> bool" where
  "decisive tm = (\<forall>h. is_left (tm h) \<or> is_right (tm h))"

declare input_loop.simps [code] merge_loop.simps [code] head_to_head_sorter.simps [code]
  save_loop.simps [code]

section \<open>The gateway: the first recognized key decides\<close>

lemma inkey_simps [simp]:
  "fst (inkey tm w) = tm (hist w)"
  "snd (inkey tm w) = emit (Key (tm (hist w))) w"
  by (simp_all add: inkey_def Let_def)

lemma input_loop_recognized:
  "recognized (tm (hist w)) \<Longrightarrow>
   input_loop tm w =
     Some (decision_of (tm (hist w)), emit (echo_of (tm (hist w))) (emit (Key (tm (hist w))) w))"
  by (subst input_loop.simps)
    (auto simp: recognized_def is_left_def is_right_def is_quit_def decision_of_def echo_of_def
      Let_def)

lemma input_loop_ignored:
  "\<not> recognized (tm (hist w)) \<Longrightarrow>
   input_loop tm w = input_loop tm (emit (Key (tm (hist w))) w)"
  by (subst input_loop.simps)
    (auto simp: recognized_def is_left_def is_right_def is_quit_def Let_def)

lemma after_keys_Suc: "after_keys tm (Suc n) w = snd (inkey tm (after_keys tm n w))"
  by (induction n arbitrary: w) simp_all

lemma nth_key_0 [simp]: "nth_key tm 0 w = tm (hist w)"
  by (simp add: nth_key_def)

lemma nth_key_Suc: "nth_key tm (Suc n) w = nth_key tm n (emit (Key (tm (hist w))) w)"
  by (simp add: nth_key_def)

lemma input_loop_first:
  "\<forall>m<n. \<not> recognized (nth_key tm m w) \<Longrightarrow> recognized (nth_key tm n w) \<Longrightarrow>
   input_loop tm w =
     Some (decision_of (nth_key tm n w), emit (echo_of (nth_key tm n w)) (after_keys tm (Suc n) w))"
proof (induction n arbitrary: w)
  case 0
  then show ?case by (simp add: input_loop_recognized)
next
  case (Suc n)
  let ?w1 = "emit (Key (tm (hist w))) w"
  from Suc.prems(1) have "\<not> recognized (tm (hist w))" by (auto dest: spec [of _ 0])
  then have step: "input_loop tm w = input_loop tm ?w1" by (rule input_loop_ignored)
  have "\<forall>m<n. \<not> recognized (nth_key tm m ?w1)"
    using Suc.prems(1) by (auto simp: nth_key_Suc [symmetric])
  moreover have "recognized (nth_key tm n ?w1)"
    using Suc.prems(2) by (simp add: nth_key_Suc)
  ultimately show ?case
    using Suc.IH [of ?w1] by (simp add: step nth_key_Suc)
qed

lemma input_loop_returns:
  assumes "input_loop tm w = Some y"
  shows "\<exists>n. (\<forall>m<n. \<not> recognized (nth_key tm m w)) \<and> recognized (nth_key tm n w)"
  apply (rule input_loop.raw_induct
      [where P = "\<lambda>tm w y. \<exists>n. (\<forall>m<n. \<not> recognized (nth_key tm m w)) \<and> recognized (nth_key tm n w)",
        OF _ assms])
  subgoal premises prems for f tm w y
  proof (cases "recognized (tm (hist w))")
    case True
    then have "(\<forall>m<0. \<not> recognized (nth_key tm m w)) \<and> recognized (nth_key tm 0 w)" by simp
    then show ?thesis by blast
  next
    case False
    let ?w1 = "emit (Key (tm (hist w))) w"
    from False prems(2) have "f tm ?w1 = Some y"
      by (auto simp: recognized_def is_left_def is_right_def is_quit_def Let_def split: if_splits)
    from prems(1) [OF this] obtain n where
      n: "\<forall>m<n. \<not> recognized (nth_key tm m ?w1)" "recognized (nth_key tm n ?w1)" by blast
    have "\<forall>m<Suc n. \<not> recognized (nth_key tm m w)"
    proof (intro allI impI)
      fix m assume "m < Suc n"
      then show "\<not> recognized (nth_key tm m w)"
        using False n(1) by (cases m) (auto simp: nth_key_Suc)
    qed
    moreover have "recognized (nth_key tm (Suc n) w)" using n(2) by (simp add: nth_key_Suc)
    ultimately show ?thesis by blast
  qed
  done

section \<open>What a comparison adds to the history\<close>

lemma hist_emit [simp]: "hist (emit e w) = hist w @ [e]"
  by (simp add: emit_def)

lemma drawn_emit [simp]: "drawn (emit e w) = drawn w"
  by (simp add: emit_def)

lemma hist_after_keys:
  "hist (after_keys tm n w) = hist w @ map (\<lambda>m. Key (nth_key tm m w)) [0..<n]"
proof (induction n)
  case 0
  then show ?case by simp
next
  case (Suc n)
  then show ?case by (simp add: after_keys_Suc nth_key_def del: after_keys.simps)
qed

lemma drawn_after_keys [simp]: "drawn (after_keys tm n w) = drawn w"
  by (induction n arbitrary: w) simp_all

lemma decision_of_cases:
  "decision_of k = Returned ''left'' \<or> decision_of k = Returned ''right'' \<or>
   decision_of k = SystemExit None"
  by (simp add: decision_of_def)

lemma input_loop_trace:
  assumes "input_loop tm w = Some (r, w')"
  shows "\<exists>ks k. hist w' = hist w @ map Key ks @ [Key k, echo_of k] \<and>
           (\<forall>x\<in>set ks. \<not> recognized x) \<and> recognized k \<and> r = decision_of k \<and>
           drawn w' = drawn w"
proof -
  from input_loop_returns [OF assms] obtain n where
    n: "\<forall>m<n. \<not> recognized (nth_key tm m w)" "recognized (nth_key tm n w)" by blast
  let ?ks = "map (\<lambda>m. nth_key tm m w) [0..<n]"
  let ?k = "nth_key tm n w"
  from input_loop_first [OF n] assms have
    r: "r = decision_of ?k" and w': "w' = emit (echo_of ?k) (after_keys tm (Suc n) w)"
    by simp_all
  have "hist w' = hist w @ map Key ?ks @ [Key ?k, echo_of ?k]"
    unfolding w' by (simp add: hist_after_keys o_def del: after_keys.simps)
  moreover have "\<forall>x\<in>set ?ks. \<not> recognized x" using n(1) by auto
  moreover have "drawn w' = drawn w" unfolding w' by (simp del: after_keys.simps)
  ultimately show ?thesis using n(2) r by blast
qed

lemma input_handler_trace:
  assumes "input_handler tm a b w = Some (r, w')"
  shows "\<exists>ks k. hist w' = hist w @ Prompt a b # map Key ks @ [Key k, echo_of k] \<and>
           (\<forall>x\<in>set ks. \<not> recognized x) \<and> recognized k \<and> r = decision_of k \<and>
           drawn w' = drawn w"
  using input_loop_trace [of tm "emit (Prompt a b) w" r w'] assms
  by (simp add: input_handler_def)

lemma input_handler_result:
  assumes "input_handler tm a b w = Some (r, w')"
  shows "r = Returned ''left'' \<or> r = Returned ''right'' \<or> r = SystemExit None"
  using input_handler_trace [OF assms] decision_of_cases by metis

lemma merge_loop_induct [consumes 1, case_names finished left right exit]:
  assumes run: "merge_loop tm left right i j result w = Some y"
    and finished: "\<And>i j result w. \<not> (i < length left \<and> j < length right) \<Longrightarrow>
           P i j result w (Returned (result @ drop i left @ drop j right), w)"
    and left: "\<And>i j result w w1 y. i < length left \<Longrightarrow> j < length right \<Longrightarrow>
           input_handler tm (left ! i) (right ! j) w = Some (Returned ''left'', w1) \<Longrightarrow>
           P (Suc i) j (result @ [left ! i]) w1 y \<Longrightarrow> P i j result w y"
    and right: "\<And>i j result w w1 y. i < length left \<Longrightarrow> j < length right \<Longrightarrow>
           input_handler tm (left ! i) (right ! j) w = Some (Returned ''right'', w1) \<Longrightarrow>
           P i (Suc j) (result @ [right ! j]) w1 y \<Longrightarrow> P i j result w y"
    and exit: "\<And>i j result w w1. i < length left \<Longrightarrow> j < length right \<Longrightarrow>
           input_handler tm (left ! i) (right ! j) w = Some (SystemExit None, w1) \<Longrightarrow>
           P i j result w (SystemExit None, w1)"
  shows "P i j result w y"
proof -
  have "tm = tm \<and> left = left \<and> right = right \<longrightarrow> P i j result w y"
    apply (rule merge_loop.raw_induct
        [where P = "\<lambda>tm' left' right' i j result w y.
                      tm' = tm \<and> left' = left \<and> right' = right \<longrightarrow> P i j result w y",
          OF _ run])
    subgoal premises prems for f tm' left' right' i j result w y
    proof (intro impI)
      assume eq: "tm' = tm \<and> left' = left \<and> right' = right"
      note body = prems(2) [unfolded conjunct1 [OF eq] conjunct1 [OF conjunct2 [OF eq]]
          conjunct2 [OF conjunct2 [OF eq]]]
      show "P i j result w y"
      proof (cases "i < length left \<and> j < length right")
        case False
        with body have "y = (Returned (result @ drop i left @ drop j right), w)" by simp
        with finished [OF False] show ?thesis by simp
      next
        case True
        with body obtain r w1 where
          ih: "input_handler tm (left ! i) (right ! j) w = Some (r, w1)"
          by (cases "input_handler tm (left ! i) (right ! j) w") auto
        from input_handler_result [OF ih] consider
          "r = Returned ''left''" | "r = Returned ''right''" | "r = SystemExit None" by blast
        then show ?thesis
        proof cases
          case 1
          with True body ih have "f tm left right (i + 1) j (result @ [left ! i]) w1 = Some y"
            by simp
          from prems(1) [OF this] have "P (Suc i) j (result @ [left ! i]) w1 y" by simp
          with left True ih 1 show ?thesis by blast
        next
          case 2
          with True body ih have "f tm left right i (j + 1) (result @ [right ! j]) w1 = Some y"
            by simp
          from prems(1) [OF this] have "P i (Suc j) (result @ [right ! j]) w1 y" by simp
          with right True ih 2 show ?thesis by blast
        next
          case 3
          with True body ih have "y = (SystemExit None, w1)" by simp
          with exit True ih 3 show ?thesis by blast
        qed
      qed
    qed
    done
  then show ?thesis by simp
qed

section \<open>Conservation of the items\<close>

lemma and_then_cases:
  assumes "and_then m f = Some y"
  shows "(\<exists>u w1. m = Some (Returned u, w1) \<and> f u w1 = Some y) \<or>
         (\<exists>c w1. m = Some (SystemExit c, w1) \<and> y = (SystemExit c, w1)) \<or>
         (\<exists>e w1. m = Some (Raised e, w1) \<and> y = (Raised e, w1))"
proof (cases m)
  case None
  with assms show ?thesis by simp
next
  case (Some p)
  obtain r w1 where p: "p = (r, w1)" by (cases p)
  show ?thesis using assms unfolding Some p by (cases r) auto
qed

lemma and_then_ReturnedE:
  assumes "and_then m f = Some (Returned v, w')"
  obtains u w1 where "m = Some (Returned u, w1)" and "f u w1 = Some (Returned v, w')"
  using and_then_cases [OF assms] by auto

lemma merge_loop_mset:
  assumes "merge_loop tm left right i j result w = Some (Returned ys, w')"
  shows "mset ys = mset result + mset (drop i left) + mset (drop j right)"
proof -
  have "\<forall>ys w'. y = (Returned ys, w') \<longrightarrow>
          mset ys = mset result + mset (drop i left) + mset (drop j right)"
    if "merge_loop tm left right i j result w = Some y" for y
    using that
  proof (induction rule: merge_loop_induct)
    case (finished i j result w)
    then show ?case by simp
  next
    case (left i j result w w1 y)
    then show ?case by (simp add: Cons_nth_drop_Suc [symmetric])
  next
    case (right i j result w w1 y)
    then show ?case by (simp add: Cons_nth_drop_Suc [symmetric])
  next
    case (exit i j result w w1)
    then show ?case by simp
  qed
  with assms show ?thesis by blast
qed

lemma merge_with_preference_mset:
  "merge_with_preference tm left right w = Some (Returned ys, w') \<Longrightarrow>
   mset ys = mset left + mset right"
  using merge_loop_mset [of tm left right 0 0 "[]" w ys w']
  by (simp add: merge_with_preference_def)

lemma shuffle_from_mset:
  "k < length x \<Longrightarrow> mset (fst (shuffle_from rnd k x w)) = mset x"
proof (induction k arbitrary: x w)
  case 0
  then show ?case by simp
next
  case (Suc k)
  let ?j = "rnd (drawn w) mod (Suc k + 1)"
  have "?j < Suc (Suc k)" by simp
  with Suc.prems have j: "?j < length x" by linarith
  have "mset (x[Suc k := x ! ?j, ?j := x ! Suc k]) = mset x"
    using mset_swap [of ?j x "Suc k"] j Suc.prems by simp
  moreover have "k < length (x[Suc k := x ! ?j, ?j := x ! Suc k])" using Suc.prems by simp
  ultimately show ?case using Suc.IH by (simp add: randbelow_def Let_def)
qed

lemma shuffle_mset [simp]: "mset (fst (shuffle rnd x w)) = mset x"
proof (cases "x = []")
  case True
  then show ?thesis by (simp add: shuffle_def)
next
  case False
  then show ?thesis by (simp add: shuffle_def shuffle_from_mset)
qed

lemma shuffle_length [simp]: "length (fst (shuffle rnd x w)) = length x"
  by (rule mset_eq_length) (rule shuffle_mset)

lemma shuffle_from_hist [simp]: "hist (snd (shuffle_from rnd k x w)) = hist w"
  by (induction k arbitrary: x w) (simp_all add: randbelow_def Let_def)

lemma shuffle_hist [simp]: "hist (snd (shuffle rnd x w)) = hist w"
  by (simp add: shuffle_def)

lemma sorter_mset:
  assumes "head_to_head_sorter tm rnd items w = Some (Returned ys, w')"
  shows "mset ys = mset items"
proof -
  have "\<forall>ys w'. y = (Returned ys, w') \<longrightarrow> mset ys = mset items"
    if run: "head_to_head_sorter tm rnd items w = Some y" for y
    apply (rule head_to_head_sorter.raw_induct
        [where P = "\<lambda>tm rnd items w y. \<forall>ys w'. y = (Returned ys, w') \<longrightarrow> mset ys = mset items",
          OF _ run])
    subgoal premises prems for f tm rnd items w y
    proof (cases "length items = 1")
      case True
      with prems(2) show ?thesis by auto
    next
      case False
      let ?items' = "fst (shuffle rnd items w)"
      let ?w0 = "snd (shuffle rnd items w)"
      let ?mid = "length ?items' div 2"
      show ?thesis
      proof (intro allI impI)
        fix ys w' assume y: "y = (Returned ys, w')"
        from prems(2) False y have body:
          "and_then (f tm rnd (take ?mid ?items') ?w0) (\<lambda>left w1.
             and_then (f tm rnd (drop ?mid ?items') w1) (\<lambda>right w2.
               merge_with_preference tm left right w2)) = Some (Returned ys, w')"
          by (simp add: Let_def)
        from body obtain left w1 where
          l: "f tm rnd (take ?mid ?items') ?w0 = Some (Returned left, w1)"
          and body2: "and_then (f tm rnd (drop ?mid ?items') w1) (\<lambda>right w2.
               merge_with_preference tm left right w2) = Some (Returned ys, w')"
          by (rule and_then_ReturnedE)
        from body2 obtain right w2 where
          r: "f tm rnd (drop ?mid ?items') w1 = Some (Returned right, w2)"
          and m: "merge_with_preference tm left right w2 = Some (Returned ys, w')"
          by (rule and_then_ReturnedE)
        from prems(1) [OF l] have "mset left = mset (take ?mid ?items')" by simp
        moreover from prems(1) [OF r] have "mset right = mset (drop ?mid ?items')" by simp
        ultimately have "mset ys = mset (take ?mid ?items') + mset (drop ?mid ?items')"
          using merge_with_preference_mset [OF m] by simp
        also have "\<dots> = mset ?items'" by (metis append_take_drop_id mset_append)
        finally show "mset ys = mset items" by simp
      qed
    qed
    done
  with assms show ?thesis by blast
qed

section \<open>Base cases\<close>

lemma shuffle_Nil: "shuffle rnd [] w = ([], w)"
  by (simp add: shuffle_def)

lemma sorter_nonempty:
  assumes "head_to_head_sorter tm rnd items w = Some y"
  shows "items \<noteq> []"
  apply (rule head_to_head_sorter.raw_induct
      [where P = "\<lambda>tm rnd items w y. items \<noteq> []", OF _ assms])
  subgoal premises prems for h tm rnd items w y
  proof
    assume e: "items = []"
    from prems(2) obtain z where "h tm rnd [] w = Some z"
      by (auto simp: e shuffle_Nil and_then_def split: option.splits)
    from prems(1) [OF this] show False by simp
  qed
  done

lemma sorter_Nil: "head_to_head_sorter tm rnd [] w = None"
  using sorter_nonempty [of tm rnd "[]" w]
  by (cases "head_to_head_sorter tm rnd [] w") auto

text \<open>
  C3. The claim is that the sorter returns the empty list for the empty list. In the code
  the base case tests \<open>len(items) == 1\<close> only: the empty list is shuffled, split into two
  empty halves and the sorter calls itself on the empty list again, without end. For every
  terminal, random sequence and world, the call on the empty list does not return.
\<close>

theorem sorter_empty_never_returns: "head_to_head_sorter tm rnd [] w = None"
  by (rule sorter_Nil)

text \<open>
  C8. For a single item the sorter returns the list unchanged and leaves the world as it
  was: nothing is printed, no key is read, no random number is drawn, so the comparator
  is not called.
\<close>

theorem sorter_single_item: "head_to_head_sorter tm rnd [x] w = Some (Returned [x], w)"
  by (subst head_to_head_sorter.simps) simp

section \<open>The claims about the gateway\<close>

text \<open>
  C7. \<open>input_handler\<close> returns or exits exactly when some key to come is recognized; the
  keys before the first recognized one are read and ignored, and that key alone decides:
  \<open>left\<close> for the left arrow, \<open>right\<close> for the right arrow, \<open>sys.exit()\<close> for \<open>q\<close>.
  So a normal return is \<open>left\<close> or \<open>right\<close>, no exception but \<open>SystemExit\<close> leaves the
  function, and with no recognized key it waits for ever.
\<close>

theorem input_handler_first_recognized:
  "(input_handler tm i j w = Some (r, w') \<longleftrightarrow>
     (\<exists>n. (\<forall>m<n. \<not> recognized (nth_key tm m (emit (Prompt i j) w))) \<and>
          recognized (nth_key tm n (emit (Prompt i j) w)) \<and>
          r = decision_of (nth_key tm n (emit (Prompt i j) w)) \<and>
          w' = emit (echo_of (nth_key tm n (emit (Prompt i j) w)))
                 (after_keys tm (Suc n) (emit (Prompt i j) w)))) \<and>
   (input_handler tm i j w = Some (r, w') \<longrightarrow>
      r = Returned ''left'' \<or> r = Returned ''right'' \<or> r = SystemExit None)"
proof (intro conjI iffI impI)
  assume a: "input_handler tm i j w = Some (r, w')"
  then have "input_loop tm (emit (Prompt i j) w) = Some (r, w')" by (simp add: input_handler_def)
  from input_loop_returns [OF this] obtain n where
    n: "\<forall>m<n. \<not> recognized (nth_key tm m (emit (Prompt i j) w))"
       "recognized (nth_key tm n (emit (Prompt i j) w))" by blast
  from input_loop_first [OF n] a show "\<exists>n. (\<forall>m<n. \<not> recognized (nth_key tm m (emit (Prompt i j) w))) \<and>
          recognized (nth_key tm n (emit (Prompt i j) w)) \<and>
          r = decision_of (nth_key tm n (emit (Prompt i j) w)) \<and>
          w' = emit (echo_of (nth_key tm n (emit (Prompt i j) w)))
                 (after_keys tm (Suc n) (emit (Prompt i j) w))"
    using n unfolding input_handler_def by (intro exI [of _ n]) simp
next
  assume "\<exists>n. (\<forall>m<n. \<not> recognized (nth_key tm m (emit (Prompt i j) w))) \<and>
          recognized (nth_key tm n (emit (Prompt i j) w)) \<and>
          r = decision_of (nth_key tm n (emit (Prompt i j) w)) \<and>
          w' = emit (echo_of (nth_key tm n (emit (Prompt i j) w)))
                 (after_keys tm (Suc n) (emit (Prompt i j) w))"
  then obtain n where n: "\<forall>m<n. \<not> recognized (nth_key tm m (emit (Prompt i j) w))"
       "recognized (nth_key tm n (emit (Prompt i j) w))"
       and r: "r = decision_of (nth_key tm n (emit (Prompt i j) w))"
         "w' = emit (echo_of (nth_key tm n (emit (Prompt i j) w)))
                 (after_keys tm (Suc n) (emit (Prompt i j) w))" by blast
  from input_loop_first [OF n] r show "input_handler tm i j w = Some (r, w')"
    by (simp add: input_handler_def)
next
  assume "input_handler tm i j w = Some (r, w')"
  then show "r = Returned ''left'' \<or> r = Returned ''right'' \<or> r = SystemExit None"
    by (rule input_handler_result)
qed

theorem input_handler_first_recognized_witness:
  "input_handler (typed [key_char CHR ''x'', key_char CHR ''y''] key_left) (1::nat) 2 initial_world =
     Some (Returned ''left'',
           \<lparr>hist = [Prompt 1 2, Key (key_char CHR ''x''), Key (key_char CHR ''y''), Key key_left,
                    Echo_left], drawn = 0\<rparr>) \<and>
   (\<exists>n. (\<forall>m<n. \<not> recognized (nth_key (typed [key_char CHR ''x'', key_char CHR ''y''] key_left) m
                                (emit (Prompt (1::nat) 2) initial_world))) \<and>
        recognized (nth_key (typed [key_char CHR ''x'', key_char CHR ''y''] key_left) n
                      (emit (Prompt (1::nat) 2) initial_world)) \<and>
        Returned ''left'' =
          decision_of (nth_key (typed [key_char CHR ''x'', key_char CHR ''y''] key_left) n
                         (emit (Prompt (1::nat) 2) initial_world)))"
proof -
  have run: "input_handler (typed [key_char CHR ''x'', key_char CHR ''y''] key_left) (1::nat) 2
      initial_world =
     Some (Returned ''left'',
           \<lparr>hist = [Prompt 1 2, Key (key_char CHR ''x''), Key (key_char CHR ''y''), Key key_left,
                    Echo_left], drawn = 0\<rparr>)"
    by code_simp
  from input_handler_first_recognized [THEN conjunct1, THEN iffD1, OF run] run
  show ?thesis by blast
qed

section \<open>The claims about the sorter\<close>

text \<open>
  C1. Whenever the sorter returns a list, for any person at the terminal and any random
  draws, that list has the same items with the same multiplicities as the input, and the
  same length.
\<close>

theorem sorter_returns_permutation:
  "head_to_head_sorter tm rnd items w = Some (Returned ys, w') \<Longrightarrow>
   mset ys = mset items \<and> length ys = length items"
  using sorter_mset [of tm rnd items w ys w'] mset_eq_length [of ys items] by simp

theorem sorter_returns_permutation_witness:
  "head_to_head_sorter (typed [key_right, key_left, key_right, key_char CHR ''x'', key_right] key_left)
     (draws [1, 0, 5, 2, 1, 1, 0]) [3, 1, 2, 5, 4::nat] initial_world =
     Some (Returned [5, 4, 3, 2, 1],
           \<lparr>hist = [Prompt 4 5, Key key_right, Echo_right, Prompt 3 2, Key key_left, Echo_left,
                    Prompt 1 3, Key key_right, Echo_right, Prompt 1 2, Key (key_char CHR ''x''),
                    Key key_right, Echo_right, Prompt 5 3, Key key_left, Echo_left, Prompt 4 3,
                    Key key_left, Echo_left], drawn = 8\<rparr>) \<and>
   mset [5, 4, 3, 2, 1::nat] = mset [3, 1, 2, 5, 4] \<and>
   length [5, 4, 3, 2, 1::nat] = length [3, 1, 2, 5, 4::nat]"
proof -
  have run: "head_to_head_sorter
     (typed [key_right, key_left, key_right, key_char CHR ''x'', key_right] key_left)
     (draws [1, 0, 5, 2, 1, 1, 0]) [3, 1, 2, 5, 4::nat] initial_world =
     Some (Returned [5, 4, 3, 2, 1],
           \<lparr>hist = [Prompt 4 5, Key key_right, Echo_right, Prompt 3 2, Key key_left, Echo_left,
                    Prompt 1 3, Key key_right, Echo_right, Prompt 1 2, Key (key_char CHR ''x''),
                    Key key_right, Echo_right, Prompt 5 3, Key key_left, Echo_left, Prompt 4 3,
                    Key key_left, Echo_left], drawn = 8\<rparr>)"
    by code_simp
  from sorter_returns_permutation [OF run] run show ?thesis by blast
qed

section \<open>The comparisons of one merge\<close>

lemma comparisons_simps [simp]:
  "comparisons [] = 0"
  "comparisons (evs @ evs') = comparisons evs + comparisons evs'"
  "comparisons (e # evs) = (if is_prompt e then 1 else 0) + comparisons evs"
  by (simp_all add: comparisons_def)

lemma comparisons_keys [simp]: "comparisons (map Key ks) = 0"
  by (induction ks) simp_all

lemma is_prompt_echo_of [simp]: "\<not> is_prompt (echo_of k)"
  by (simp add: echo_of_def)

lemma input_handler_one_prompt:
  assumes "input_handler tm a b w = Some (r, w')"
  shows "\<exists>evs. hist w' = hist w @ evs \<and> comparisons evs = 1"
proof -
  from input_handler_trace [OF assms] obtain ks k where
    "hist w' = hist w @ Prompt a b # map Key ks @ [Key k, echo_of k]" by blast
  then have "hist w' = hist w @ (Prompt a b # map Key ks @ [Key k, echo_of k]) \<and>
      comparisons (Prompt a b # map Key ks @ [Key k, echo_of k]) = 1" by simp
  then show ?thesis by blast
qed

lemma merge_loop_comparisons:
  assumes "merge_loop tm left right i j result w = Some (Returned ys, w')"
  shows "\<exists>evs. hist w' = hist w @ evs \<and>
           (if i < length left \<and> j < length right
            then min (length left - i) (length right - j) \<le> comparisons evs \<and>
                 comparisons evs + 1 \<le> (length left - i) + (length right - j)
            else comparisons evs = 0)"
proof -
  have "\<forall>ys w'. y = (Returned ys, w') \<longrightarrow>
          (\<exists>evs. hist w' = hist w @ evs \<and>
           (if i < length left \<and> j < length right
            then min (length left - i) (length right - j) \<le> comparisons evs \<and>
                 comparisons evs + 1 \<le> (length left - i) + (length right - j)
            else comparisons evs = 0))"
    if "merge_loop tm left right i j result w = Some y" for y
    using that
  proof (induction rule: merge_loop_induct)
    case (finished i j result w)
    then show ?case by auto
  next
    case (left i j result w w1 y)
    show ?case
    proof (intro allI impI)
      fix ys w' assume y: "y = (Returned ys, w')"
      from left.IH y obtain evs where evs: "hist w' = hist w1 @ evs"
        "if Suc i < length left \<and> j < length right
            then min (length left - Suc i) (length right - j) \<le> comparisons evs \<and>
                 comparisons evs + 1 \<le> (length left - Suc i) + (length right - j)
            else comparisons evs = 0" by blast
      from input_handler_one_prompt [OF left.hyps(3)] obtain evs1 where
        evs1: "hist w1 = hist w @ evs1" "comparisons evs1 = 1" by blast
      have "hist w' = hist w @ (evs1 @ evs)" using evs(1) evs1(1) by simp
      moreover have "min (length left - i) (length right - j) \<le> comparisons (evs1 @ evs) \<and>
                 comparisons (evs1 @ evs) + 1 \<le> (length left - i) + (length right - j)"
        using evs(2) evs1(2) left.hyps(1,2) by (auto split: if_splits)
      ultimately show "\<exists>evs. hist w' = hist w @ evs \<and>
           (if i < length left \<and> j < length right
            then min (length left - i) (length right - j) \<le> comparisons evs \<and>
                 comparisons evs + 1 \<le> (length left - i) + (length right - j)
            else comparisons evs = 0)"
        using left.hyps(1,2) by (intro exI [of _ "evs1 @ evs"]) simp
    qed
  next
    case (right i j result w w1 y)
    show ?case
    proof (intro allI impI)
      fix ys w' assume y: "y = (Returned ys, w')"
      from right.IH y obtain evs where evs: "hist w' = hist w1 @ evs"
        "if i < length left \<and> Suc j < length right
            then min (length left - i) (length right - Suc j) \<le> comparisons evs \<and>
                 comparisons evs + 1 \<le> (length left - i) + (length right - Suc j)
            else comparisons evs = 0" by blast
      from input_handler_one_prompt [OF right.hyps(3)] obtain evs1 where
        evs1: "hist w1 = hist w @ evs1" "comparisons evs1 = 1" by blast
      have "hist w' = hist w @ (evs1 @ evs)" using evs(1) evs1(1) by simp
      moreover have "min (length left - i) (length right - j) \<le> comparisons (evs1 @ evs) \<and>
                 comparisons (evs1 @ evs) + 1 \<le> (length left - i) + (length right - j)"
        using evs(2) evs1(2) right.hyps(1,2) by (auto split: if_splits)
      ultimately show "\<exists>evs. hist w' = hist w @ evs \<and>
           (if i < length left \<and> j < length right
            then min (length left - i) (length right - j) \<le> comparisons evs \<and>
                 comparisons evs + 1 \<le> (length left - i) + (length right - j)
            else comparisons evs = 0)"
        using right.hyps(1,2) by (intro exI [of _ "evs1 @ evs"]) simp
    qed
  next
    case (exit i j result w w1)
    then show ?case by simp
  qed
  with assms show ?thesis by blast
qed

text \<open>
  Merging \<open>[1, 2]\<close> with \<open>[3, 4]\<close> under the usual order asks twice (1 against 3, 2
  against 3); then the left list is used up and \<open>[3, 4]\<close> is appended without a question.
  That is one comparison fewer than the sum of the lengths minus one.
\<close>

theorem merge_comparisons_counterexample:
  "merge_with_preference (scripted (<)) [1, 2] [3, 4::nat] initial_world =
     Some (Returned [1, 2, 3, 4],
           \<lparr>hist = [Prompt 1 3, Key key_left, Echo_left, Prompt 2 3, Key key_left, Echo_left],
            drawn = 0\<rparr>) \<and>
   comparisons [Prompt 1 3, Key key_left, Echo_left, Prompt 2 3, Key key_left, Echo_left :: nat event]
     \<noteq> length [1, 2::nat] + length [3, 4::nat] - 1"
  by code_simp

text \<open>
  C4 (as amended). A merge that returns has asked at most
  \<open>len(left) + len(right) - 1\<close> times and at least \<open>min(len(left), len(right))\<close> times
  when both lists are non-empty, and not at all when one of them is empty: the loop stops
  as soon as one list is used up and the rest of the other is appended unasked.
\<close>

theorem merge_comparisons_bounds:
  "merge_with_preference tm left right w = Some (Returned ys, w') \<Longrightarrow>
   \<exists>evs. hist w' = hist w @ evs \<and>
     (if left = [] \<or> right = [] then comparisons evs = 0
      else min (length left) (length right) \<le> comparisons evs \<and>
           comparisons evs \<le> length left + length right - 1)"
proof -
  assume "merge_with_preference tm left right w = Some (Returned ys, w')"
  then have "merge_loop tm left right 0 0 [] w = Some (Returned ys, w')"
    by (simp add: merge_with_preference_def)
  from merge_loop_comparisons [OF this] obtain evs where
    "hist w' = hist w @ evs"
    "if 0 < length left \<and> 0 < length right
            then min (length left - 0) (length right - 0) \<le> comparisons evs \<and>
                 comparisons evs + 1 \<le> (length left - 0) + (length right - 0)
            else comparisons evs = 0" by blast
  then have "hist w' = hist w @ evs \<and>
     (if left = [] \<or> right = [] then comparisons evs = 0
      else min (length left) (length right) \<le> comparisons evs \<and>
           comparisons evs \<le> length left + length right - 1)"
    by (auto split: if_splits)
  then show ?thesis by blast
qed

theorem merge_comparisons_bounds_witness:
  "merge_with_preference (scripted (<)) [1, 2] [3, 4::nat] initial_world =
     Some (Returned [1, 2, 3, 4],
           \<lparr>hist = [Prompt 1 3, Key key_left, Echo_left, Prompt 2 3, Key key_left, Echo_left],
            drawn = 0\<rparr>) \<and>
   (\<exists>evs. [Prompt 1 3, Key key_left, Echo_left, Prompt 2 3, Key key_left, Echo_left] =
             hist (initial_world :: nat world) @ evs \<and>
     min (length [1, 2::nat]) (length [3, 4::nat]) \<le> comparisons evs \<and>
     comparisons evs \<le> length [1, 2::nat] + length [3, 4::nat] - 1)"
proof -
  have run: "merge_with_preference (scripted (<)) [1, 2] [3, 4::nat] initial_world =
     Some (Returned [1, 2, 3, 4],
           \<lparr>hist = [Prompt 1 3, Key key_left, Echo_left, Prompt 2 3, Key key_left, Echo_left],
            drawn = 0\<rparr>)"
    by code_simp
  from merge_comparisons_bounds [OF run] run show ?thesis by simp
qed

section \<open>Termination when every key is an answer\<close>

lemma decision_of_left: "is_left k \<Longrightarrow> decision_of k = Returned ''left''"
  by (simp add: decision_of_def)

lemma decision_of_right: "is_right k \<Longrightarrow> decision_of k = Returned ''right''"
  by (auto simp: decision_of_def is_left_def is_right_def)

lemma input_handler_left:
  assumes "is_left (tm (hist w @ [Prompt a b]))"
  shows "\<exists>w1. input_handler tm a b w = Some (Returned ''left'', w1)"
  using input_loop_recognized [of tm "emit (Prompt a b) w"] assms
  by (simp add: input_handler_def recognized_def decision_of_left)

lemma input_handler_right:
  assumes "is_right (tm (hist w @ [Prompt a b]))"
  shows "\<exists>w1. input_handler tm a b w = Some (Returned ''right'', w1)"
  using input_loop_recognized [of tm "emit (Prompt a b) w"] assms
  by (simp add: input_handler_def recognized_def decision_of_right)

lemma merge_loop_left:
  assumes "i < length left" "j < length right"
    and "input_handler tm (left ! i) (right ! j) w = Some (Returned ''left'', w1)"
  shows "merge_loop tm left right i j result w =
         merge_loop tm left right (Suc i) j (result @ [left ! i]) w1"
  by (subst merge_loop.simps) (simp add: assms)

lemma merge_loop_right:
  assumes "i < length left" "j < length right"
    and "input_handler tm (left ! i) (right ! j) w = Some (Returned ''right'', w1)"
  shows "merge_loop tm left right i j result w =
         merge_loop tm left right i (Suc j) (result @ [right ! j]) w1"
  by (subst merge_loop.simps) (simp add: assms)

lemma merge_loop_finished:
  assumes "\<not> (i < length left \<and> j < length right)"
  shows "merge_loop tm left right i j result w =
         Some (Returned (result @ drop i left @ drop j right), w)"
  by (subst merge_loop.simps) (use assms in auto)

lemma merge_loop_decisive:
  assumes "decisive tm"
  shows "\<exists>ys w'. merge_loop tm left right i j result w = Some (Returned ys, w')"
proof (induction "(length left - i) + (length right - j)" arbitrary: i j result w rule: less_induct)
  case less
  show ?case
  proof (cases "i < length left \<and> j < length right")
    case False
    then show ?thesis by (simp add: merge_loop_finished)
  next
    case True
    from assms have "is_left (tm (hist w @ [Prompt (left ! i) (right ! j)])) \<or>
        is_right (tm (hist w @ [Prompt (left ! i) (right ! j)]))"
      by (simp add: decisive_def)
    then show ?thesis
    proof
      assume "is_left (tm (hist w @ [Prompt (left ! i) (right ! j)]))"
      from input_handler_left [of tm w "left ! i" "right ! j", OF this] obtain w1 where
        "input_handler tm (left ! i) (right ! j) w = Some (Returned ''left'', w1)" by blast
      with True have "merge_loop tm left right i j result w =
         merge_loop tm left right (Suc i) j (result @ [left ! i]) w1"
        by (simp add: merge_loop_left)
      moreover have "(length left - Suc i) + (length right - j) <
          (length left - i) + (length right - j)" using True by linarith
      ultimately show ?thesis using less [of "Suc i" j] by simp
    next
      assume "is_right (tm (hist w @ [Prompt (left ! i) (right ! j)]))"
      from input_handler_right [of tm w "left ! i" "right ! j", OF this] obtain w1 where
        "input_handler tm (left ! i) (right ! j) w = Some (Returned ''right'', w1)" by blast
      with True have "merge_loop tm left right i j result w =
         merge_loop tm left right i (Suc j) (result @ [right ! j]) w1"
        by (simp add: merge_loop_right)
      moreover have "(length left - i) + (length right - Suc j) <
          (length left - i) + (length right - j)" using True by linarith
      ultimately show ?thesis using less [of i "Suc j"] by simp
    qed
  qed
qed

lemma sorter_split:
  assumes "length items \<noteq> 1"
  shows "head_to_head_sorter tm rnd items w =
     and_then (head_to_head_sorter tm rnd
                 (take (length items div 2) (fst (shuffle rnd items w))) (snd (shuffle rnd items w)))
       (\<lambda>left w1.
          and_then (head_to_head_sorter tm rnd
                      (drop (length items div 2) (fst (shuffle rnd items w))) w1)
            (\<lambda>right w2. merge_with_preference tm left right w2))"
  using assms
  by (subst head_to_head_sorter.simps) (simp add: Let_def cong del: and_then_weak_cong)

lemma sorter_decisive:
  assumes "decisive tm"
  shows "items \<noteq> [] \<Longrightarrow> \<exists>ys w'. head_to_head_sorter tm rnd items w = Some (Returned ys, w')"
proof (induction "length items" arbitrary: items w rule: less_induct)
  case less
  show ?case
  proof (cases "length items = 1")
    case True
    then show ?thesis by (subst head_to_head_sorter.simps) simp
  next
    case False
    have "length items \<noteq> 0" using less.prems by simp
    with False have len: "2 \<le> length items" by linarith
    let ?items' = "fst (shuffle rnd items w)"
    let ?mid = "length items div 2"
    have ne: "?items' \<noteq> []"
    proof
      assume "?items' = []"
      then have "length ?items' = 0" by (simp only: list.size)
      with len show False by simp
    qed
    have l: "take ?mid ?items' \<noteq> []" "length (take ?mid ?items') < length items"
      using len ne by auto
    have r: "drop ?mid ?items' \<noteq> []" "length (drop ?mid ?items') < length items"
      using len ne by auto
    from less.hyps [OF l(2) l(1)] obtain left w1 where
      1: "head_to_head_sorter tm rnd (take ?mid ?items') (snd (shuffle rnd items w)) =
          Some (Returned left, w1)" by blast
    from less.hyps [OF r(2) r(1)] obtain right w2 where
      2: "head_to_head_sorter tm rnd (drop ?mid ?items') w1 = Some (Returned right, w2)"
      by blast
    from merge_loop_decisive [OF assms] obtain ys w' where
      3: "merge_with_preference tm left right w2 = Some (Returned ys, w')"
      unfolding merge_with_preference_def by blast
    show ?thesis by (simp add: sorter_split [OF False] 1 2 3)
  qed
qed

section \<open>Order under a consistent comparator\<close>

lemma answers_by_left:
  "answers_by lt tm \<Longrightarrow> lt a b \<Longrightarrow> is_left (tm (h @ [Prompt a b]))"
  unfolding answers_by_def by (metis (full_types))

lemma answers_by_right:
  "answers_by lt tm \<Longrightarrow> \<not> lt a b \<Longrightarrow> is_right (tm (h @ [Prompt a b]))"
  unfolding answers_by_def by (metis (full_types))

lemma le_trans_by:
  assumes "strict_total_order lt" "\<not> lt y x" "\<not> lt z y"
  shows "\<not> lt z x"
  using assms unfolding strict_total_order_def by metis

lemma lt_asym_by:
  assumes "strict_total_order lt" "lt x y"
  shows "\<not> lt y x"
  using assms unfolding strict_total_order_def by metis

lemma sorted_by_snoc_head:
  assumes sto: "strict_total_order lt"
    and a: "sorted_by lt (result @ x # xs)"
    and b: "sorted_by lt (result @ y # ys)"
    and xy: "\<not> lt y x"
  shows "sorted_by lt ((result @ [x]) @ y # ys)"
proof -
  have "\<forall>z\<in>set (y # ys). \<not> lt z x"
  proof
    fix z assume "z \<in> set (y # ys)"
    then have "z = y \<or> z \<in> set ys" by simp
    then show "\<not> lt z x"
    proof
      assume "z = y" with xy show ?thesis by simp
    next
      assume "z \<in> set ys"
      with b have "\<not> lt z y" by (auto simp: sorted_by_def sorted_wrt_append)
      with le_trans_by [OF sto xy] show ?thesis by blast
    qed
  qed
  moreover from a have "sorted_by lt result" "\<forall>r\<in>set result. \<not> lt x r"
    by (auto simp: sorted_by_def sorted_wrt_append)
  moreover from b have "sorted_by lt (y # ys)" "\<forall>r\<in>set result. \<forall>z\<in>set (y # ys). \<not> lt z r"
    by (auto simp: sorted_by_def sorted_wrt_append)
  ultimately show ?thesis
    by (auto simp: sorted_by_def sorted_wrt_append)
qed

lemma merge_loop_sorted:
  assumes ans: "answers_by lt tm" and sto: "strict_total_order lt"
  shows "sorted_by lt (result @ drop i left) \<Longrightarrow> sorted_by lt (result @ drop j right) \<Longrightarrow>
     \<exists>ys w'. merge_loop tm left right i j result w = Some (Returned ys, w') \<and> sorted_by lt ys"
proof (induction "(length left - i) + (length right - j)" arbitrary: i j result w rule: less_induct)
  case less
  show ?case
  proof (cases "i < length left \<and> j < length right")
    case False
    then have "drop i left = [] \<or> drop j right = []" by auto
    then have "sorted_by lt (result @ drop i left @ drop j right)"
      using less.prems by auto
    with False show ?thesis by (simp add: merge_loop_finished)
  next
    case True
    then have dl: "drop i left = left ! i # drop (Suc i) left"
      and dr: "drop j right = right ! j # drop (Suc j) right"
      by (simp_all add: Cons_nth_drop_Suc)
    show ?thesis
    proof (cases "lt (left ! i) (right ! j)")
      case lt: True
      from answers_by_left [OF ans lt] have "is_left (tm (hist w @ [Prompt (left ! i) (right ! j)]))" .
      from input_handler_left [of tm w "left ! i" "right ! j", OF this] obtain w1 where
        "input_handler tm (left ! i) (right ! j) w = Some (Returned ''left'', w1)" by blast
      with True have step: "merge_loop tm left right i j result w =
         merge_loop tm left right (Suc i) j (result @ [left ! i]) w1"
        by (simp add: merge_loop_left)
      have m: "(length left - Suc i) + (length right - j) <
          (length left - i) + (length right - j)" using True by linarith
      have 1: "sorted_by lt ((result @ [left ! i]) @ drop (Suc i) left)"
        using less.prems(1) by (simp add: dl)
      have "\<not> lt (right ! j) (left ! i)" using lt_asym_by [OF sto lt] .
      from sorted_by_snoc_head [OF sto less.prems(1) [unfolded dl] less.prems(2) [unfolded dr] this]
      have 2: "sorted_by lt ((result @ [left ! i]) @ drop j right)" by (simp add: dr)
      from less.hyps [OF m 1 2] show ?thesis by (simp add: step)
    next
      case nlt: False
      from answers_by_right [OF ans nlt]
      have "is_right (tm (hist w @ [Prompt (left ! i) (right ! j)]))" .
      from input_handler_right [of tm w "left ! i" "right ! j", OF this] obtain w1 where
        "input_handler tm (left ! i) (right ! j) w = Some (Returned ''right'', w1)" by blast
      with True have step: "merge_loop tm left right i j result w =
         merge_loop tm left right i (Suc j) (result @ [right ! j]) w1"
        by (simp add: merge_loop_right)
      have m: "(length left - i) + (length right - Suc j) <
          (length left - i) + (length right - j)" using True by linarith
      have 2: "sorted_by lt ((result @ [right ! j]) @ drop (Suc j) right)"
        using less.prems(2) by (simp add: dr)
      from sorted_by_snoc_head [OF sto less.prems(2) [unfolded dr] less.prems(1) [unfolded dl] nlt]
      have 1: "sorted_by lt ((result @ [right ! j]) @ drop i left)" by (simp add: dl)
      from less.hyps [OF m 1 2] show ?thesis by (simp add: step)
    qed
  qed
qed

lemma sorter_sorts:
  assumes ans: "answers_by lt tm" and sto: "strict_total_order lt"
  shows "items \<noteq> [] \<Longrightarrow>
     \<exists>ys w'. head_to_head_sorter tm rnd items w = Some (Returned ys, w') \<and>
             sorted_by lt ys \<and> mset ys = mset items"
proof (induction "length items" arbitrary: items w rule: less_induct)
  case less
  show ?case
  proof (cases "length items = 1")
    case True
    then obtain x where "items = [x]" by (cases items) auto
    then show ?thesis by (subst head_to_head_sorter.simps) (simp add: sorted_by_def)
  next
    case False
    have "length items \<noteq> 0" using less.prems by simp
    with False have len: "2 \<le> length items" by linarith
    let ?items' = "fst (shuffle rnd items w)"
    let ?mid = "length items div 2"
    have ne: "?items' \<noteq> []"
    proof
      assume "?items' = []"
      then have "length ?items' = 0" by (simp only: list.size)
      with len show False by simp
    qed
    have l: "take ?mid ?items' \<noteq> []" "length (take ?mid ?items') < length items"
      using len ne by auto
    have r: "drop ?mid ?items' \<noteq> []" "length (drop ?mid ?items') < length items"
      using len ne by auto
    from less.hyps [OF l(2) l(1)] obtain left w1 where
      1: "head_to_head_sorter tm rnd (take ?mid ?items') (snd (shuffle rnd items w)) =
          Some (Returned left, w1)" and sl: "sorted_by lt left" by blast
    from less.hyps [OF r(2) r(1)] obtain right w2 where
      2: "head_to_head_sorter tm rnd (drop ?mid ?items') w1 = Some (Returned right, w2)"
      and sr: "sorted_by lt right" by blast
    from merge_loop_sorted [OF ans sto, of "[]" 0 left 0 right w2] sl sr obtain ys w' where
      3: "merge_with_preference tm left right w2 = Some (Returned ys, w')"
      and sy: "sorted_by lt ys"
      unfolding merge_with_preference_def by auto
    have run: "head_to_head_sorter tm rnd items w = Some (Returned ys, w')"
      by (simp add: sorter_split [OF False] 1 2 3)
    from sorter_mset [OF run] sy run show ?thesis by blast
  qed
qed

lemma sorted_by_unique:
  assumes sto: "strict_total_order lt"
  shows "sorted_by lt xs \<Longrightarrow> sorted_by lt ys \<Longrightarrow> mset xs = mset ys \<Longrightarrow> xs = ys"
proof (induction xs arbitrary: ys)
  case Nil
  then show ?case by simp
next
  case (Cons x xs)
  from Cons.prems(3) obtain y ys' where ys: "ys = y # ys'"
    by (cases ys) auto
  have "x \<in> set ys" using Cons.prems(3) by (metis list.set_intros(1) set_mset_mset)
  then have 1: "\<not> lt x y"
    using Cons.prems(2) sto unfolding ys sorted_by_def strict_total_order_def by auto
  have "y \<in> set (x # xs)" using Cons.prems(3) unfolding ys
    by (metis list.set_intros(1) set_mset_mset)
  then have 2: "\<not> lt y x"
    using Cons.prems(1) sto unfolding sorted_by_def strict_total_order_def by auto
  from 1 2 sto have xy: "x = y" unfolding strict_total_order_def by metis
  with Cons.prems have "sorted_by lt xs" "sorted_by lt ys'" "mset xs = mset ys'"
    unfolding ys sorted_by_def by auto
  from Cons.IH [OF this] xy show ?case by (simp add: ys)
qed

lemma answers_by_scripted: "answers_by lt (scripted lt)"
  by (simp add: answers_by_def scripted_def is_left_def is_right_def key_left_def key_right_def)

lemma strict_total_order_less: "strict_total_order ((<) :: 'a::linorder \<Rightarrow> 'a \<Rightarrow> bool)"
  by (auto simp: strict_total_order_def)

lemma decisive_typed: "is_left k \<or> is_right k \<Longrightarrow> \<forall>x\<in>set ks. is_left x \<or> is_right x \<Longrightarrow> decisive (typed ks k)"
  by (auto simp: decisive_def typed_def Let_def)

text \<open>
  C10. When every key the person presses is the left or the right arrow, the sorter
  returns a list for every non-empty input, whatever the random draws: in the recursive
  case the list has at least two items, both halves of the shuffled list are non-empty and
  strictly shorter than the input, and every answer advances one cursor of the merge.
\<close>

theorem sorter_terminates:
  "decisive tm \<Longrightarrow> items \<noteq> [] \<Longrightarrow>
   (\<exists>ys w'. head_to_head_sorter tm rnd items w = Some (Returned ys, w')) \<and>
   (2 \<le> length items \<longrightarrow>
      (let items' = fst (shuffle rnd items w); mid = length items' div 2
       in take mid items' \<noteq> [] \<and> length (take mid items') < length items \<and>
          drop mid items' \<noteq> [] \<and> length (drop mid items') < length items))"
proof (intro conjI impI)
  assume "decisive tm" "items \<noteq> []"
  then show "\<exists>ys w'. head_to_head_sorter tm rnd items w = Some (Returned ys, w')"
    by (rule sorter_decisive)
next
  assume len: "2 \<le> length items"
  let ?items' = "fst (shuffle rnd items w)"
  have "length ?items' = length items" by simp
  with len have "?items' \<noteq> []" by (metis list.size(3) not_numeral_le_zero)
  with len show "let items' = fst (shuffle rnd items w); mid = length items' div 2
       in take mid items' \<noteq> [] \<and> length (take mid items') < length items \<and>
          drop mid items' \<noteq> [] \<and> length (drop mid items') < length items"
    by (auto simp: Let_def)
qed

theorem sorter_terminates_witness:
  "decisive (typed [key_right, key_left] key_right :: nat terminal) \<and> [3, 1, 2, 5, 4::nat] \<noteq> [] \<and>
   (\<exists>ys w'. head_to_head_sorter (typed [key_right, key_left] key_right) (draws [1, 0, 5])
              [3, 1, 2, 5, 4::nat] initial_world = Some (Returned ys, w'))"
proof -
  have d: "decisive (typed [key_right, key_left] key_right :: nat terminal)"
    by (rule decisive_typed) (simp_all add: is_left_def is_right_def key_left_def key_right_def)
  have n: "[3, 1, 2, 5, 4::nat] \<noteq> []" by simp
  from sorter_terminates [OF d n, of "draws [1, 0, 5]" initial_world] d show ?thesis by simp
qed

text \<open>
  C2. Under a decision source that answers by a strict total order, for every random
  sequence: on a non-empty list the sorter returns the items sorted by that order; on the
  empty list it does not return at all, where the claim has it return the (sorted) empty
  list. The empty list is the same missed base case as in C3.
\<close>

theorem sorter_consistent_comparator:
  "answers_by lt tm \<Longrightarrow> strict_total_order lt \<Longrightarrow>
   (if items = [] then head_to_head_sorter tm rnd items w = None
    else \<exists>ys w'. head_to_head_sorter tm rnd items w = Some (Returned ys, w') \<and>
                 sorted_by lt ys \<and> mset ys = mset items)"
  using sorter_sorts [of lt tm items rnd w] sorter_Nil [of tm rnd w] by simp

theorem sorter_consistent_comparator_witness:
  "answers_by (<) (scripted (<) :: string terminal) \<and>
   strict_total_order ((<) :: string \<Rightarrow> string \<Rightarrow> bool) \<and>
   head_to_head_sorter (scripted (<)) (draws [1, 0, 5]) ([] :: string list) initial_world = None \<and>
   head_to_head_sorter (scripted (<)) (draws [1, 0, 5]) [''banana'', ''apple'', ''cherry'']
     initial_world =
     Some (Returned [''apple'', ''banana'', ''cherry''],
           \<lparr>hist = [Prompt ''banana'' ''apple'', Key key_right, Echo_right,
                    Prompt ''cherry'' ''apple'', Key key_right, Echo_right,
                    Prompt ''cherry'' ''banana'', Key key_right, Echo_right], drawn = 3\<rparr>)"
proof -
  have a: "answers_by (<) (scripted (<) :: string terminal)" by (rule answers_by_scripted)
  have s: "strict_total_order ((<) :: string \<Rightarrow> string \<Rightarrow> bool)"
    by (rule strict_total_order_less)
  have run: "head_to_head_sorter (scripted (<)) (draws [1, 0, 5]) [''banana'', ''apple'', ''cherry'']
     initial_world =
     Some (Returned [''apple'', ''banana'', ''cherry''],
           \<lparr>hist = [Prompt ''banana'' ''apple'', Key key_right, Echo_right,
                    Prompt ''cherry'' ''apple'', Key key_right, Echo_right,
                    Prompt ''cherry'' ''banana'', Key key_right, Echo_right], drawn = 3\<rparr>)"
    by code_simp
  from sorter_consistent_comparator [OF a s, of "[]" "draws [1, 0, 5]" initial_world]
  have "head_to_head_sorter (scripted (<)) (draws [1, 0, 5]) ([] :: string list) initial_world = None"
    by simp
  with a s run show ?thesis by blast
qed

text \<open>
  C9. Under a decision source that answers by a strict total order: on a non-empty list
  the sorter returns a list, and feeding that list into a second run, with any random
  draws and any history, returns the same list again; on the empty list the first run
  does not return, so sorting twice returns nothing either, where the claim has both
  return the empty list. The empty list is the same missed base case as in C3.
\<close>

theorem sorter_idempotent:
  "answers_by lt tm \<Longrightarrow> strict_total_order lt \<Longrightarrow>
   (if items = [] then head_to_head_sorter tm rnd1 items w1 = None
    else \<exists>ys w2. head_to_head_sorter tm rnd1 items w1 = Some (Returned ys, w2) \<and>
           (\<forall>rnd2 w3. \<exists>w4. head_to_head_sorter tm rnd2 ys w3 = Some (Returned ys, w4)))"
proof (cases "items = []")
  case True
  then show ?thesis by (simp add: sorter_Nil)
next
  case False
  assume ans: "answers_by lt tm" and sto: "strict_total_order lt"
  from sorter_sorts [OF ans sto False, of rnd1 w1] obtain ys w2 where
    run: "head_to_head_sorter tm rnd1 items w1 = Some (Returned ys, w2)"
    and sy: "sorted_by lt ys" and my: "mset ys = mset items" by blast
  from my False have ne: "ys \<noteq> []" by auto
  have "\<exists>w4. head_to_head_sorter tm rnd2 ys w3 = Some (Returned ys, w4)" for rnd2 w3
  proof -
    from sorter_sorts [OF ans sto ne, of rnd2 w3] obtain zs w4 where
      run2: "head_to_head_sorter tm rnd2 ys w3 = Some (Returned zs, w4)"
      and sz: "sorted_by lt zs" and mz: "mset zs = mset ys" by blast
    from sorted_by_unique [OF sto sz sy mz] run2 show ?thesis by blast
  qed
  with run False show ?thesis by auto
qed

theorem sorter_idempotent_witness:
  "answers_by (<) (scripted (<) :: nat terminal) \<and>
   strict_total_order ((<) :: nat \<Rightarrow> nat \<Rightarrow> bool) \<and>
   head_to_head_sorter (scripted (<)) (draws [1, 0, 5]) ([] :: nat list) initial_world = None \<and>
   head_to_head_sorter (scripted (<)) (draws [1, 0, 5]) [3, 1, 2::nat] initial_world =
     Some (Returned [1, 2, 3],
           \<lparr>hist = [Prompt 3 1, Key key_right, Echo_right, Prompt 2 1, Key key_right, Echo_right,
                    Prompt 2 3, Key key_left, Echo_left], drawn = 3\<rparr>) \<and>
   (\<exists>w4. head_to_head_sorter (scripted (<)) (draws [0, 1, 1]) [1, 2, 3::nat]
           \<lparr>hist = [Prompt 3 1, Key key_right, Echo_right, Prompt 2 1, Key key_right, Echo_right,
                    Prompt 2 3, Key key_left, Echo_left], drawn = 3\<rparr> =
         Some (Returned [1, 2, 3], w4))"
proof -
  let ?w2 = "\<lparr>hist = [Prompt 3 1, Key key_right, Echo_right, Prompt 2 1, Key key_right, Echo_right,
                    Prompt 2 3, Key key_left, Echo_left :: nat event], drawn = 3\<rparr>"
  have a: "answers_by (<) (scripted (<) :: nat terminal)" by (rule answers_by_scripted)
  have s: "strict_total_order ((<) :: nat \<Rightarrow> nat \<Rightarrow> bool)"
    by (rule strict_total_order_less)
  have run: "head_to_head_sorter (scripted (<)) (draws [1, 0, 5]) [3, 1, 2::nat] initial_world =
     Some (Returned [1, 2, 3], ?w2)"
    by code_simp
  from sorter_idempotent [OF a s, of "[]" "draws [1, 0, 5]" initial_world]
  have e: "head_to_head_sorter (scripted (<)) (draws [1, 0, 5]) ([] :: nat list) initial_world = None"
    by simp
  from sorter_idempotent [OF a s, of "[3, 1, 2]" "draws [1, 0, 5]" initial_world]
  obtain ys w2 where
    run': "head_to_head_sorter (scripted (<)) (draws [1, 0, 5]) [3, 1, 2::nat] initial_world =
       Some (Returned ys, w2)"
    and again: "\<forall>rnd2 w3. \<exists>w4. head_to_head_sorter (scripted (<)) rnd2 ys w3 =
       Some (Returned ys, w4)"
    by auto
  from run run' have ys: "ys = [1, 2, 3]" by simp
  from again have "\<exists>w4. head_to_head_sorter (scripted (<)) (draws [0, 1, 1]) [1, 2, 3::nat] ?w2 =
         Some (Returned [1, 2, 3], w4)" unfolding ys by blast
  with a s e run show ?thesis by (intro conjI)
qed

section \<open>Cancellation\<close>

lemma outcome_simps [simp]:
  "outcome (Returned v) evs = list_all comparison_event evs"
  "outcome (SystemExit c) evs =
     (c = None \<and>
      (\<exists>evs' k. evs = evs' @ [Key k, Echo_q] \<and> is_quit k \<and> list_all comparison_event evs'))"
  "outcome (Raised e) evs = False"
  by (simp_all add: outcome_def)

lemma outcome_append:
  assumes "list_all comparison_event evs1" "outcome r evs2"
  shows "outcome r (evs1 @ evs2)"
proof (cases r)
  case (Returned v)
  with assms show ?thesis by simp
next
  case (SystemExit c)
  with assms obtain evs' k where
    "c = None" "evs2 = evs' @ [Key k, Echo_q]" "is_quit k" "list_all comparison_event evs'"
    by auto
  then have "evs1 @ evs2 = (evs1 @ evs') @ [Key k, Echo_q] \<and> is_quit k \<and>
      list_all comparison_event (evs1 @ evs')" using assms(1) by simp
  then have "\<exists>es k. evs1 @ evs2 = es @ [Key k, Echo_q] \<and> is_quit k \<and>
      list_all comparison_event es" by blast
  with \<open>c = None\<close> show ?thesis unfolding SystemExit outcome_simps by simp
next
  case (Raised e)
  with assms show ?thesis by simp
qed

lemma unrecognized_keys_clean:
  "\<forall>x\<in>set ks. \<not> recognized x \<Longrightarrow> list_all comparison_event (map Key ks)"
  by (induction ks) (auto simp: recognized_def)

lemma input_handler_outcome:
  assumes "input_handler tm a b w = Some (r, w')"
  shows "\<exists>evs. hist w' = hist w @ evs \<and> outcome r evs"
proof -
  from input_handler_trace [OF assms] obtain ks k where
    h: "hist w' = hist w @ Prompt a b # map Key ks @ [Key k, echo_of k]"
    and ks: "\<forall>x\<in>set ks. \<not> recognized x" and k: "recognized k" and r: "r = decision_of k"
    by blast
  note c = unrecognized_keys_clean [OF ks]
  have "outcome r (Prompt a b # map Key ks @ [Key k, echo_of k])"
  proof (cases "is_left k \<or> is_right k")
    case True
    then have "\<not> is_quit k" by (auto simp: is_left_def is_right_def is_quit_def)
    with True c show ?thesis
      unfolding r by (auto simp: decision_of_def echo_of_def)
  next
    case False
    with k have q: "is_quit k" by (simp add: recognized_def)
    have "Prompt a b # map Key ks @ [Key k, echo_of k] =
        (Prompt a b # map Key ks) @ [Key k, Echo_q]" using False by (simp add: echo_of_def)
    moreover have "list_all comparison_event (Prompt a b # map Key ks)" using c by simp
    ultimately show ?thesis
      unfolding r using False q by (auto simp: decision_of_def simp del: append_Cons)
  qed
  with h show ?thesis by blast
qed

lemma merge_loop_outcome:
  assumes "merge_loop tm left right i j result w = Some (r, w')"
  shows "\<exists>evs. hist w' = hist w @ evs \<and> outcome r evs"
proof -
  have "\<exists>evs. hist (snd y) = hist w @ evs \<and> outcome (fst y) evs"
    if "merge_loop tm left right i j result w = Some y" for y
    using that
  proof (induction rule: merge_loop_induct)
    case (finished i j result w)
    then show ?case by simp
  next
    case (left i j result w w1 y)
    from input_handler_outcome [OF left.hyps(3)] obtain evs1 where
      1: "hist w1 = hist w @ evs1" "list_all comparison_event evs1" by auto
    from left.IH obtain evs2 where 2: "hist (snd y) = hist w1 @ evs2" "outcome (fst y) evs2"
      by blast
    from 1 2 have "hist (snd y) = hist w @ (evs1 @ evs2)" by simp
    with outcome_append [OF 1(2) 2(2)] show ?case by blast
  next
    case (right i j result w w1 y)
    from input_handler_outcome [OF right.hyps(3)] obtain evs1 where
      1: "hist w1 = hist w @ evs1" "list_all comparison_event evs1" by auto
    from right.IH obtain evs2 where 2: "hist (snd y) = hist w1 @ evs2" "outcome (fst y) evs2"
      by blast
    from 1 2 have "hist (snd y) = hist w @ (evs1 @ evs2)" by simp
    with outcome_append [OF 1(2) 2(2)] show ?case by blast
  next
    case (exit i j result w w1)
    from input_handler_outcome [OF exit.hyps(3)] show ?case by simp
  qed
  from this [OF assms] show ?thesis by simp
qed

lemma sorter_outcome:
  assumes "head_to_head_sorter tm rnd items w = Some (r, w')"
  shows "\<exists>evs. hist w' = hist w @ evs \<and> outcome r evs"
proof -
  have "\<exists>evs. hist (snd y) = hist w @ evs \<and> outcome (fst y) evs"
    if run: "head_to_head_sorter tm rnd items w = Some y" for y
    apply (rule head_to_head_sorter.raw_induct
        [where P = "\<lambda>tm rnd items w y. \<exists>evs. hist (snd y) = hist w @ evs \<and> outcome (fst y) evs",
          OF _ run])
    subgoal premises prems for f tm rnd items w y
    proof (cases "length items = 1")
      case True
      with prems(2) have "y = (Returned items, w)" by simp
      then show ?thesis by simp
    next
      case False
      let ?items' = "fst (shuffle rnd items w)"
      let ?w0 = "snd (shuffle rnd items w)"
      let ?mid = "length ?items' div 2"
      from prems(2) False have body:
        "and_then (f tm rnd (take ?mid ?items') ?w0) (\<lambda>left w1.
           and_then (f tm rnd (drop ?mid ?items') w1) (\<lambda>right w2.
             merge_with_preference tm left right w2)) = Some y"
        by (simp add: Let_def)
      from and_then_cases [OF body] show ?thesis
      proof (elim disjE exE conjE)
        fix left w1
        assume l: "f tm rnd (take ?mid ?items') ?w0 = Some (Returned left, w1)"
          and body2: "and_then (f tm rnd (drop ?mid ?items') w1) (\<lambda>right w2.
             merge_with_preference tm left right w2) = Some y"
        from prems(1) [OF l] obtain evs1 where
          1: "hist w1 = hist w @ evs1" "list_all comparison_event evs1" by auto
        from and_then_cases [OF body2] show ?thesis
        proof (elim disjE exE conjE)
          fix right w2
          assume r: "f tm rnd (drop ?mid ?items') w1 = Some (Returned right, w2)"
            and m: "merge_with_preference tm left right w2 = Some y"
          from prems(1) [OF r] obtain evs2 where
            2: "hist w2 = hist w1 @ evs2" "list_all comparison_event evs2" by auto
          from m have "merge_loop tm left right 0 0 [] w2 = Some (fst y, snd y)"
            by (simp add: merge_with_preference_def)
          from merge_loop_outcome [OF this] obtain evs3 where
            3: "hist (snd y) = hist w2 @ evs3" "outcome (fst y) evs3" by blast
          have "list_all comparison_event (evs1 @ evs2)" using 1(2) 2(2) by simp
          from outcome_append [OF this 3(2)] 1(1) 2(1) 3(1)
          have "hist (snd y) = hist w @ ((evs1 @ evs2) @ evs3) \<and>
              outcome (fst y) ((evs1 @ evs2) @ evs3)" by simp
          then show ?thesis by blast
        next
          fix c w2
          assume r: "f tm rnd (drop ?mid ?items') w1 = Some (SystemExit c, w2)"
            and y: "y = (SystemExit c, w2)"
          from prems(1) [OF r] obtain evs2 where
            2: "hist w2 = hist w1 @ evs2" "outcome (SystemExit c :: 'a list result) evs2"
            by auto
          from outcome_append [OF 1(2) 2(2)] 1(1) 2(1) y
          have "hist (snd y) = hist w @ (evs1 @ evs2) \<and> outcome (fst y) (evs1 @ evs2)" by simp
          then show ?thesis by blast
        next
          fix e w2
          assume r: "f tm rnd (drop ?mid ?items') w1 = Some (Raised e, w2)"
          from prems(1) [OF r] show ?thesis by simp
        qed
      next
        fix c w1
        assume l: "f tm rnd (take ?mid ?items') ?w0 = Some (SystemExit c, w1)"
          and y: "y = (SystemExit c, w1)"
        from prems(1) [OF l] y show ?thesis by simp
      next
        fix e w1
        assume l: "f tm rnd (take ?mid ?items') ?w0 = Some (Raised e, w1)"
        from prems(1) [OF l] show ?thesis by simp
      qed
    qed
    done
  from this [OF assms] show ?thesis by simp
qed


lemma is_quit_key_q: "is_quit key_q"
  by (simp add: is_quit_def key_q_def lower_def lower_char_def)

lemma comparison_event_not_completion: "comparison_event e \<Longrightarrow> \<not> completion_output e"
  by (cases e) simp_all

lemma first_recognized:
  assumes "\<exists>n. recognized (nth_key tm n w)"
  shows "\<exists>n. (\<forall>m<n. \<not> recognized (nth_key tm m w)) \<and> recognized (nth_key tm n w)"
proof -
  from assms obtain n where "recognized (nth_key tm n w)" by blast
  then have "recognized (nth_key tm (LEAST n. recognized (nth_key tm n w)) w)"
    by (rule LeastI)
  moreover have "\<forall>m<(LEAST n. recognized (nth_key tm n w)). \<not> recognized (nth_key tm m w)"
    using not_less_Least by blast
  ultimately show ?thesis by blast
qed

lemma append_keeps:
  assumes closed: "\<And>h e. Q h \<Longrightarrow> comparison_event e \<Longrightarrow> Q (h @ [e])"
  shows "Q h \<Longrightarrow> list_all comparison_event evs \<Longrightarrow> Q (h @ evs)"
proof (induction evs arbitrary: h)
  case Nil
  then show ?case by simp
next
  case (Cons e evs)
  from Cons.prems have "Q (h @ [e])" by (auto intro: closed)
  from Cons.IH [OF this] Cons.prems(2) show ?case by simp
qed

lemma input_handler_ends:
  assumes closed: "\<And>h e. Q h \<Longrightarrow> comparison_event e \<Longrightarrow> Q (h @ [e])"
    and resp: "\<And>w. Q (hist w) \<Longrightarrow> \<exists>n. recognized (nth_key tm n w)"
    and q: "Q (hist w)"
  shows "\<exists>r w'. input_handler tm a b w = Some (r, w')"
proof -
  have "Q (hist (emit (Prompt a b) w))" using closed [OF q, of "Prompt a b"] by simp
  from first_recognized [OF resp [OF this]] obtain n where
    n: "\<forall>m<n. \<not> recognized (nth_key tm m (emit (Prompt a b) w))"
       "recognized (nth_key tm n (emit (Prompt a b) w))" by blast
  from input_loop_first [OF n] show ?thesis by (simp add: input_handler_def)
qed

lemma merge_loop_exit:
  assumes "i < length left" "j < length right"
    and "input_handler tm (left ! i) (right ! j) w = Some (SystemExit c, w1)"
  shows "merge_loop tm left right i j result w = Some (SystemExit c, w1)"
  by (subst merge_loop.simps) (simp add: assms)

lemma merge_loop_ends:
  assumes closed: "\<And>h e. Q h \<Longrightarrow> comparison_event e \<Longrightarrow> Q (h @ [e])"
    and resp: "\<And>w. Q (hist w) \<Longrightarrow> \<exists>n. recognized (nth_key tm n w)"
  shows "Q (hist w) \<Longrightarrow> \<exists>r w'. merge_loop tm left right i j result w = Some (r, w')"
proof (induction "(length left - i) + (length right - j)" arbitrary: i j result w rule: less_induct)
  case less
  show ?case
  proof (cases "i < length left \<and> j < length right")
    case False
    then show ?thesis by (simp add: merge_loop_finished)
  next
    case True
    from input_handler_ends [of Q tm w "left ! i" "right ! j", OF closed resp less.prems]
    obtain r w1 where ih: "input_handler tm (left ! i) (right ! j) w = Some (r, w1)" by blast
    from input_handler_outcome [OF ih] obtain evs where
      evs: "hist w1 = hist w @ evs" "outcome r evs" by blast
    from input_handler_result [OF ih] consider
      "r = Returned ''left''" | "r = Returned ''right''" | "r = SystemExit None" by blast
    then show ?thesis
    proof cases
      case 1
      with evs have "Q (hist w1)" using append_keeps [of Q "hist w" evs] closed less.prems by simp
      moreover have "(length left - Suc i) + (length right - j) <
          (length left - i) + (length right - j)" using True by linarith
      ultimately have "\<exists>r w'. merge_loop tm left right (Suc i) j (result @ [left ! i]) w1 =
          Some (r, w')" using less.hyps by blast
      with True ih 1 show ?thesis by (simp add: merge_loop_left)
    next
      case 2
      with evs have "Q (hist w1)" using append_keeps [of Q "hist w" evs] closed less.prems by simp
      moreover have "(length left - i) + (length right - Suc j) <
          (length left - i) + (length right - j)" using True by linarith
      ultimately have "\<exists>r w'. merge_loop tm left right i (Suc j) (result @ [right ! j]) w1 =
          Some (r, w')" using less.hyps by blast
      with True ih 2 show ?thesis by (simp add: merge_loop_right)
    next
      case 3
      with True ih show ?thesis by (simp add: merge_loop_exit)
    qed
  qed
qed

lemma sorter_ends:
  assumes closed: "\<And>h e. Q h \<Longrightarrow> comparison_event e \<Longrightarrow> Q (h @ [e])"
    and resp: "\<And>w. Q (hist w) \<Longrightarrow> \<exists>n. recognized (nth_key tm n w)"
  shows "items \<noteq> [] \<Longrightarrow> Q (hist w) \<Longrightarrow>
     \<exists>r w'. head_to_head_sorter tm rnd items w = Some (r, w')"
proof (induction "length items" arbitrary: items w rule: less_induct)
  case less
  show ?case
  proof (cases "length items = 1")
    case True
    then show ?thesis by (subst head_to_head_sorter.simps) simp
  next
    case False
    have "length items \<noteq> 0" using less.prems by simp
    with False have len: "2 \<le> length items" by linarith
    let ?items' = "fst (shuffle rnd items w)"
    let ?w0 = "snd (shuffle rnd items w)"
    let ?mid = "length items div 2"
    have ne: "?items' \<noteq> []"
    proof
      assume "?items' = []"
      then have "length ?items' = 0" by (simp only: list.size)
      with len show False by simp
    qed
    have l: "take ?mid ?items' \<noteq> []" "length (take ?mid ?items') < length items"
      using len ne by auto
    have r: "drop ?mid ?items' \<noteq> []" "length (drop ?mid ?items') < length items"
      using len ne by auto
    have q0: "Q (hist ?w0)" using less.prems(2) by simp
    from less.hyps [OF l(2) l(1) q0] obtain r1 w1 where
      1: "head_to_head_sorter tm rnd (take ?mid ?items') ?w0 = Some (r1, w1)" by blast
    show ?thesis
    proof (cases r1)
      case (Returned left)
      from sorter_outcome [OF 1] Returned obtain evs1 where
        "hist w1 = hist ?w0 @ evs1" "list_all comparison_event evs1" by auto
      with q0 have q1: "Q (hist w1)" using append_keeps [of Q "hist ?w0" evs1] closed by simp
      from less.hyps [OF r(2) r(1) q1] obtain r2 w2 where
        2: "head_to_head_sorter tm rnd (drop ?mid ?items') w1 = Some (r2, w2)" by blast
      show ?thesis
      proof (cases r2)
        case right: (Returned right)
        from sorter_outcome [OF 2] right obtain evs2 where
          "hist w2 = hist w1 @ evs2" "list_all comparison_event evs2" by auto
        with q1 have q2: "Q (hist w2)" using append_keeps [of Q "hist w1" evs2] closed by simp
        from merge_loop_ends [of Q tm w2 left right 0 0 "[]", OF closed resp q2]
        obtain r3 w3 where "merge_with_preference tm left right w2 = Some (r3, w3)"
          unfolding merge_with_preference_def by blast
        with 1 2 Returned right show ?thesis by (simp add: sorter_split [OF False])
      next
        case (SystemExit c)
        with 1 2 Returned show ?thesis by (simp add: sorter_split [OF False])
      next
        case (Raised e)
        with 1 2 Returned show ?thesis by (simp add: sorter_split [OF False])
      qed
    next
      case (SystemExit c)
      with 1 show ?thesis by (simp add: sorter_split [OF False])
    next
      case (Raised e)
      with 1 show ?thesis by (simp add: sorter_split [OF False])
    qed
  qed
qed

lemma is_key_count:
  "length xs \<le> length (filter is_key (h @ map Key xs))"
  by (induction xs rule: rev_induct) (simp_all add: le_SucI)

lemma nth_key_hist: "nth_key tm n w = tm (hist w @ map (\<lambda>m. Key (nth_key tm m w)) [0..<n])"
  by (simp only: nth_key_def [of tm n w] inkey_simps hist_after_keys)

lemma responsive_typed:
  assumes "recognized k"
  shows "responsive (typed ks k)"
  unfolding responsive_def
proof
  fix w :: "'a world"
  let ?tm = "typed ks k :: 'a terminal"
  let ?h = "hist w @ map Key (map (\<lambda>m. nth_key ?tm m w) [0..<length ks])"
  have "length (map (\<lambda>m. nth_key ?tm m w) [0..<length ks]) \<le> length (filter is_key ?h)"
    by (rule is_key_count)
  then have "\<not> length (filter is_key ?h) < length ks" by simp
  then have "typed ks k ?h = k" by (simp add: typed_def Let_def)
  then have "nth_key ?tm (length ks) w = k"
    by (subst nth_key_hist) (simp add: o_def)
  with assms show "\<exists>n. recognized (nth_key ?tm n w)" by metis
qed

lemma recognized_key_left: "recognized key_left"
  by (simp add: recognized_def is_left_def key_left_def)

text \<open>
  C5. With a person who, whatever has happened, presses a recognized key again at some
  point, every call of the sorter on a non-empty list ends. If a quit key was read during
  any of its comparisons, it ends with \<open>SystemExit\<close> and returns no list, the quit key
  and its echo are the last events (no prompt, no key read and no output follow them), and
  all comparisons before it were answered; if no quit key was read, it returns a list.
\<close>

theorem sorter_cancellation:
  assumes "responsive tm" and "items \<noteq> []"
  shows "\<exists>r w' evs. head_to_head_sorter tm rnd items w = Some (r, w') \<and> hist w' = hist w @ evs \<and>
     (if \<exists>k. Key k \<in> set evs \<and> is_quit k
      then r = SystemExit None \<and>
           (\<exists>evs' k. evs = evs' @ [Key k, Echo_q] \<and> is_quit k \<and>
                     list_all comparison_event evs')
      else (\<exists>ys. r = Returned ys) \<and> list_all comparison_event evs)"
proof -
  have "\<exists>r w'. head_to_head_sorter tm rnd items w = Some (r, w')"
    using sorter_ends [of "\<lambda>h. True" tm items w rnd] assms by (simp add: responsive_def)
  then obtain r w' where run: "head_to_head_sorter tm rnd items w = Some (r, w')" by blast
  from sorter_outcome [OF run] obtain evs where
    h: "hist w' = hist w @ evs" and o: "outcome r evs" by blast
  have "if \<exists>k. Key k \<in> set evs \<and> is_quit k
      then r = SystemExit None \<and>
           (\<exists>evs' k. evs = evs' @ [Key k, Echo_q] \<and> is_quit k \<and>
                     list_all comparison_event evs')
      else (\<exists>ys. r = Returned ys) \<and> list_all comparison_event evs"
  proof (cases r)
    case (Returned ys)
    with o have c: "list_all comparison_event evs" by simp
    then have "\<not> (\<exists>k. Key k \<in> set evs \<and> is_quit k)"
      by (auto simp: list_all_iff)
    with Returned c show ?thesis by simp
  next
    case (SystemExit c)
    with o obtain evs' k where
      e: "c = None" "evs = evs' @ [Key k, Echo_q]" "is_quit k" "list_all comparison_event evs'"
      by auto
    then have "\<exists>k. Key k \<in> set evs \<and> is_quit k" by auto
    with SystemExit e show ?thesis by auto
  next
    case (Raised e)
    with o show ?thesis by simp
  qed
  with run h show ?thesis by blast
qed

theorem sorter_cancellation_witness:
  "responsive (typed [key_right, key_q] key_left :: nat terminal) \<and> [3, 1, 2::nat] \<noteq> [] \<and>
   head_to_head_sorter (typed [key_right, key_q] key_left) (draws [1, 0, 5]) [3, 1, 2::nat]
     initial_world =
     Some (SystemExit None,
           \<lparr>hist = [Prompt 3 1, Key key_right, Echo_right, Prompt 2 1, Key key_q, Echo_q],
            drawn = 3\<rparr>) \<and>
   (\<exists>evs' k. [Prompt 3 1, Key key_right, Echo_right, Prompt 2 1, Key key_q, Echo_q :: nat event] =
        evs' @ [Key k, Echo_q] \<and> is_quit k \<and> list_all comparison_event evs')"
proof -
  have resp: "responsive (typed [key_right, key_q] key_left :: nat terminal)"
    by (rule responsive_typed) (rule recognized_key_left)
  have ne: "[3, 1, 2::nat] \<noteq> []" by simp
  have run: "head_to_head_sorter (typed [key_right, key_q] key_left) (draws [1, 0, 5])
     [3, 1, 2::nat] initial_world =
     Some (SystemExit None,
           \<lparr>hist = [Prompt 3 1, Key key_right, Echo_right, Prompt 2 1, Key key_q, Echo_q],
            drawn = 3\<rparr>)"
    by code_simp
  from sorter_cancellation [OF resp ne, of "draws [1, 0, 5]" initial_world]
  obtain r w' evs where
    run': "head_to_head_sorter (typed [key_right, key_q] key_left) (draws [1, 0, 5])
       [3, 1, 2::nat] initial_world = Some (r, w')"
    and hh: "hist w' = hist (initial_world :: nat world) @ evs"
    and c: "if \<exists>k. Key k \<in> set evs \<and> is_quit k
      then r = SystemExit None \<and>
           (\<exists>evs' k. evs = evs' @ [Key k, Echo_q] \<and> is_quit k \<and>
                     list_all comparison_event evs')
      else (\<exists>ys. r = Returned ys) \<and> list_all comparison_event evs"
    by blast
  from run run' have r: "r = SystemExit None"
    and w': "w' = \<lparr>hist = [Prompt 3 1, Key key_right, Echo_right, Prompt 2 1, Key key_q, Echo_q],
            drawn = 3\<rparr>" by simp_all
  from hh have evs: "evs = [Prompt 3 1, Key key_right, Echo_right, Prompt 2 1, Key key_q, Echo_q]"
    unfolding w' by (simp add: initial_world_def)
  have "\<exists>evs' k. evs = evs' @ [Key k, Echo_q] \<and> is_quit k \<and> list_all comparison_event evs'"
  proof (cases "\<exists>k. Key k \<in> set evs \<and> is_quit k")
    case True
    with c show ?thesis by (simp only: if_True)
  next
    case False
    with c have "\<exists>ys. r = Returned ys" by (simp only: if_False)
    with r show ?thesis by simp
  qed
  with resp ne run show ?thesis unfolding evs by blast
qed

lemma save_loop_answered:
  assumes "save_answer (tm (hist w))"
  shows "\<exists>r w'. save_loop tm os xs w = Some (r, w') \<and>
           (r = Returned () \<or> r = Raised EOFError \<or> r = Raised OSError)"
proof (cases "lower (str (tm (hist w))) = ''y''")
  case True
  let ?w2 = "emit Filename_prompt (emit Echo_y (emit (Key (tm (hist w))) w))"
  show ?thesis
  proof (cases "stdin_line os (hist ?w2)")
    case None
    have "save_loop tm os xs w = Some (Raised EOFError, ?w2)"
      by (subst save_loop.simps) (use True None in \<open>simp add: Let_def\<close>)
    then show ?thesis by simp
  next
    case (Some save_filename)
    show ?thesis
    proof (cases "writable os save_filename")
      case w: True
      have "save_loop tm os xs w =
          Some (Returned (), emit (Saved_msg save_filename)
                  (emit (File_written save_filename xs) (emit (Line save_filename) ?w2)))"
        by (subst save_loop.simps) (use True Some w in \<open>simp add: Let_def\<close>)
      then show ?thesis by simp
    next
      case w: False
      have "save_loop tm os xs w = Some (Raised OSError, emit (Line save_filename) ?w2)"
        by (subst save_loop.simps) (use True Some w in \<open>simp add: Let_def\<close>)
      then show ?thesis by simp
    qed
  qed
next
  case False
  with assms have n: "lower (str (tm (hist w))) = ''n''" by (simp add: save_answer_def)
  have "save_loop tm os xs w = Some (Returned (), emit Echo_n (emit (Key (tm (hist w))) w))"
    by (subst save_loop.simps) (use False n in \<open>simp add: Let_def\<close>)
  then show ?thesis by simp
qed

lemma save_loop_ignored:
  assumes "\<not> save_answer (tm (hist w))"
  shows "save_loop tm os xs w = save_loop tm os xs (emit (Key (tm (hist w))) w)"
  using assms
  by (subst save_loop.simps) (simp add: save_answer_def Let_def)

lemma save_loop_ends_after:
  "save_answer (nth_key tm n w) \<Longrightarrow>
   \<exists>r w'. save_loop tm os xs w = Some (r, w') \<and>
           (r = Returned () \<or> r = Raised EOFError \<or> r = Raised OSError)"
proof (induction n arbitrary: w)
  case 0
  then have "save_answer (tm (hist w))" by simp
  then show ?case by (rule save_loop_answered)
next
  case (Suc n)
  show ?case
  proof (cases "save_answer (tm (hist w))")
    case True
    then show ?thesis by (rule save_loop_answered)
  next
    case False
    from Suc.prems have "save_answer (nth_key tm n (emit (Key (tm (hist w))) w))"
      by (simp add: nth_key_Suc)
    from Suc.IH [OF this] show ?thesis by (simp add: save_loop_ignored [of tm w, OF False])
  qed
qed

lemma hist_print_ranking_aux:
  "hist (fold (\<lambda>(i, item). emit (Rank (i + 1) item)) ps w) =
   hist w @ map (\<lambda>(i, item). Rank (i + 1) item) ps"
  by (induction ps arbitrary: w) (auto simp: case_prod_beta)

lemma hist_print_ranking:
  "hist (print_ranking xs w) = hist w @ map (\<lambda>(i, item). Rank (i + 1) item) (enumerate 0 xs)"
  unfolding print_ranking_def by (rule hist_print_ranking_aux)

lemma answers_while_sorting_typed:
  assumes "recognized k"
  shows "answers_while_sorting (then_answer (typed ks k) k2)"
  unfolding answers_while_sorting_def
proof (intro allI impI)
  fix w :: "'a world"
  assume sp: "Save_prompt \<notin> set (hist w)"
  let ?tm = "then_answer (typed ks k) k2 :: 'a terminal"
  let ?h = "hist w @ map Key (map (\<lambda>m. nth_key ?tm m w) [0..<length ks])"
  have "length (map (\<lambda>m. nth_key ?tm m w) [0..<length ks]) \<le> length (filter is_key ?h)"
    by (rule is_key_count)
  then have "\<not> length (filter is_key ?h) < length ks" by simp
  then have "typed ks k ?h = k" by (simp add: typed_def Let_def)
  moreover have "Save_prompt \<notin> set ?h" using sp by auto
  ultimately have "?tm ?h = k" by (simp only: then_answer_def if_False)
  then have "nth_key ?tm (length ks) w = k"
    by (subst nth_key_hist) (simp add: o_def)
  with assms show "\<exists>n. recognized (nth_key ?tm n w)" by metis
qed

lemma answers_save_prompt_then:
  assumes "save_answer k2"
  shows "answers_save_prompt (then_answer tm k2)"
  unfolding answers_save_prompt_def
proof (intro allI impI)
  fix w :: "'a world"
  assume "Save_prompt \<in> set (hist w)"
  then have "nth_key (then_answer tm k2) 0 w = k2" by (simp add: then_answer_def)
  with assms show "\<exists>n. save_answer (nth_key (then_answer tm k2) n w)" by metis
qed

lemma save_answer_n: "save_answer (key_char CHR ''n'')"
  by (simp add: save_answer_def key_char_def lower_def lower_char_def)

text \<open>
  The script on a file of three lines: with \<open>q\<close> pressed at the second comparison the
  process ends with status 0, and a run that sorts to the end and declines to save also
  ends with status 0. The status of a cancelled run is not distinct and not non-zero.
\<close>

theorem script_cancel_status_counterexample:
  "run_script (typed [key_right, key_q] key_left) (draws [1, 0, 5])
     (one_file ''items.txt'' [''banana'', ''apple'', ''cherry'']) =
     Some (0, \<lparr>hist = [Prompt ''banana'' ''apple'', Key key_right, Echo_right,
                       Prompt ''cherry'' ''apple'', Key key_q, Echo_q], drawn = 3\<rparr>) \<and>
   run_script (typed [key_right, key_right, key_right, key_char CHR ''n''] key_left) (draws [1, 0, 5])
     (one_file ''items.txt'' [''banana'', ''apple'', ''cherry'']) =
     Some (0, \<lparr>hist = [Prompt ''banana'' ''apple'', Key key_right, Echo_right,
                       Prompt ''cherry'' ''apple'', Key key_right, Echo_right,
                       Prompt ''cherry'' ''banana'', Key key_right, Echo_right,
                       Sorted_header, Rank 1 ''apple'', Rank 2 ''banana'', Rank 3 ''cherry'',
                       Save_prompt, Key (key_char CHR ''n''), Echo_n], drawn = 3\<rparr>)"
  by code_simp

text \<open>
  C6 (as amended). The script is started on a readable, non-empty file, with a person who
  keeps pressing recognized keys while sorting and answers the save prompt. The sort call
  ends. If a quit key was read during one of its comparisons, the call returns no value,
  \<open>main\<close> ends with \<open>SystemExit\<close> without an argument and the process ends with status
  0, and nothing of a completed sort has been printed or saved. Otherwise the sort returns
  and \<open>main\<close> ends: with status 0 after normal completion, the same status as after
  a cancellation, or with status 1 when saving failed.
\<close>

theorem script_cancellation:
  assumes "answers_while_sorting tm" and "answers_save_prompt tm"
    and "1 < length (argv os)" and "files os (argv os ! 1) = Some items" and "items \<noteq> []"
  shows "\<exists>r1 w1. head_to_head_sorter tm rnd items initial_world = Some (r1, w1) \<and>
     (if \<exists>k. Key k \<in> set (hist w1) \<and> is_quit k
      then r1 = SystemExit None \<and>
           main tm rnd os initial_world = Some (SystemExit None, w1) \<and>
           run_script tm rnd os = Some (0, w1) \<and>
           list_all (\<lambda>e. \<not> completion_output e) (hist w1)
      else \<exists>ys r w'. r1 = Returned ys \<and>
           main tm rnd os initial_world = Some (r, w') \<and>
           (r = Returned () \<and> run_script tm rnd os = Some (0, w') \<or>
            (r = Raised EOFError \<or> r = Raised OSError) \<and> run_script tm rnd os = Some (1, w')))"
proof -
  let ?Q = "\<lambda>h :: 'a event list. Save_prompt \<notin> set h"
  have closed: "\<And>h e. ?Q h \<Longrightarrow> comparison_event e \<Longrightarrow> ?Q (h @ [e])"
    by auto
  have resp: "\<And>w. ?Q (hist w) \<Longrightarrow> \<exists>n. recognized (nth_key tm n w)"
    using assms(1) by (simp add: answers_while_sorting_def)
  have "?Q (hist (initial_world :: 'a world))" by (simp add: initial_world_def)
  from sorter_ends [of ?Q tm items initial_world rnd, OF closed resp assms(5) this]
  obtain r1 w1 where run: "head_to_head_sorter tm rnd items initial_world = Some (r1, w1)"
    by blast
  from sorter_outcome [OF run] obtain evs where
    h: "hist w1 = evs" and o: "outcome r1 evs" by (auto simp: initial_world_def)
  have "if \<exists>k. Key k \<in> set (hist w1) \<and> is_quit k
      then r1 = SystemExit None \<and>
           main tm rnd os initial_world = Some (SystemExit None, w1) \<and>
           run_script tm rnd os = Some (0, w1) \<and>
           list_all (\<lambda>e. \<not> completion_output e) (hist w1)
      else \<exists>ys r w'. r1 = Returned ys \<and>
           main tm rnd os initial_world = Some (r, w') \<and>
           (r = Returned () \<and> run_script tm rnd os = Some (0, w') \<or>
            (r = Raised EOFError \<or> r = Raised OSError) \<and> run_script tm rnd os = Some (1, w'))"
  proof (cases r1)
    case (Returned ys)
    with o h have c: "list_all comparison_event (hist w1)" by simp
    then have nq: "\<not> (\<exists>k. Key k \<in> set (hist w1) \<and> is_quit k)"
      by (auto simp: list_all_iff)
    let ?w2 = "emit Save_prompt (print_ranking ys (emit Sorted_header w1))"
    have m: "main tm rnd os initial_world = save_loop tm os ys ?w2"
      using assms(3,4) run Returned unfolding main_def by (simp add: Let_def)
    have "Save_prompt \<in> set (hist ?w2)" by simp
    with assms(2) obtain n where "save_answer (nth_key tm n ?w2)"
      unfolding answers_save_prompt_def by blast
    from save_loop_ends_after [OF this, of os ys] obtain r w' where
      s: "save_loop tm os ys ?w2 = Some (r, w')"
      and r: "r = Returned () \<or> r = Raised EOFError \<or> r = Raised OSError" by blast
    have rs: "run_script tm rnd os = Some (exit_status r, w')"
      unfolding run_script_def m s by simp
    from r have "r = Returned () \<and> run_script tm rnd os = Some (0, w') \<or>
            (r = Raised EOFError \<or> r = Raised OSError) \<and> run_script tm rnd os = Some (1, w')"
      unfolding rs by (elim disjE) simp_all
    moreover have "main tm rnd os initial_world = Some (r, w')" unfolding m by (rule s)
    moreover note Returned
    ultimately have "r1 = Returned ys \<and>
           main tm rnd os initial_world = Some (r, w') \<and>
           (r = Returned () \<and> run_script tm rnd os = Some (0, w') \<or>
            (r = Raised EOFError \<or> r = Raised OSError) \<and> run_script tm rnd os = Some (1, w'))"
      by (intro conjI)
    then have "\<exists>ys r w'. r1 = Returned ys \<and>
           main tm rnd os initial_world = Some (r, w') \<and>
           (r = Returned () \<and> run_script tm rnd os = Some (0, w') \<or>
            (r = Raised EOFError \<or> r = Raised OSError) \<and> run_script tm rnd os = Some (1, w'))"
      by (intro exI)
    with nq show ?thesis by (simp only: if_False)
  next
    case (SystemExit c)
    with o obtain evs' k where
      e: "c = None" "evs = evs' @ [Key k, Echo_q]" "is_quit k" "list_all comparison_event evs'"
      by auto
    have q: "\<exists>k. Key k \<in> set (hist w1) \<and> is_quit k" using e h by auto
    have m: "main tm rnd os initial_world = Some (SystemExit None, w1)"
      using assms(3,4) run SystemExit e(1) unfolding main_def by (simp add: Let_def)
    have s: "run_script tm rnd os = Some (0, w1)"
      unfolding run_script_def m by simp
    have "list_all (\<lambda>e. \<not> completion_output e) (hist w1)"
      unfolding h e(2) using e(4) by (auto simp: list_all_iff comparison_event_not_completion)
    moreover note m s
    moreover have "r1 = SystemExit None" using SystemExit e(1) by simp
    ultimately have "r1 = SystemExit None \<and>
           main tm rnd os initial_world = Some (SystemExit None, w1) \<and>
           run_script tm rnd os = Some (0, w1) \<and>
           list_all (\<lambda>e. \<not> completion_output e) (hist w1)" by (intro conjI)
    with q show ?thesis by (simp only: if_True)
  next
    case (Raised e)
    with o show ?thesis by simp
  qed
  with run show ?thesis by blast
qed

theorem script_cancellation_witness:
  "answers_while_sorting
     (then_answer (typed [key_right, key_q] key_left) (key_char CHR ''n'') :: string terminal) \<and>
   answers_save_prompt
     (then_answer (typed [key_right, key_q] key_left) (key_char CHR ''n'') :: string terminal) \<and>
   run_script (then_answer (typed [key_right, key_q] key_left) (key_char CHR ''n''))
     (draws [1, 0, 5]) (one_file ''items.txt'' [''banana'', ''apple'', ''cherry'']) =
     Some (0, \<lparr>hist = [Prompt ''banana'' ''apple'', Key key_right, Echo_right,
                       Prompt ''cherry'' ''apple'', Key key_q, Echo_q], drawn = 3\<rparr>) \<and>
   list_all (\<lambda>e. \<not> completion_output e)
     [Prompt ''banana'' ''apple'', Key key_right, Echo_right,
      Prompt ''cherry'' ''apple'', Key key_q, Echo_q]"
proof -
  let ?tm = "then_answer (typed [key_right, key_q] key_left) (key_char CHR ''n'') :: string terminal"
  let ?os = "one_file ''items.txt'' [''banana'', ''apple'', ''cherry'']"
  let ?w1 = "\<lparr>hist = [Prompt ''banana'' ''apple'', Key key_right, Echo_right,
                       Prompt ''cherry'' ''apple'', Key key_q, Echo_q], drawn = 3\<rparr>"
  have s: "answers_while_sorting ?tm"
    by (rule answers_while_sorting_typed) (rule recognized_key_left)
  have v: "answers_save_prompt ?tm"
    by (rule answers_save_prompt_then) (rule save_answer_n)
  have a: "1 < length (argv ?os)" by (simp add: one_file_def)
  have f: "files ?os (argv ?os ! 1) = Some [''banana'', ''apple'', ''cherry'']"
    by (simp add: one_file_def)
  have ne: "[''banana'', ''apple'', ''cherry''] \<noteq> []" by simp
  have run: "head_to_head_sorter ?tm (draws [1, 0, 5])
      [''banana'', ''apple'', ''cherry''] initial_world = Some (SystemExit None, ?w1)"
    by code_simp
  from script_cancellation [OF s v a f ne, of "draws [1, 0, 5]"] obtain r1 w1 where
    run': "head_to_head_sorter ?tm (draws [1, 0, 5])
      [''banana'', ''apple'', ''cherry''] initial_world = Some (r1, w1)"
    and c: "if \<exists>k. Key k \<in> set (hist w1) \<and> is_quit k
      then r1 = SystemExit None \<and>
           main ?tm (draws [1, 0, 5]) ?os initial_world = Some (SystemExit None, w1) \<and>
           run_script ?tm (draws [1, 0, 5]) ?os = Some (0, w1) \<and>
           list_all (\<lambda>e. \<not> completion_output e) (hist w1)
      else \<exists>ys r w'. r1 = Returned ys \<and>
           main ?tm (draws [1, 0, 5]) ?os initial_world = Some (r, w') \<and>
           (r = Returned () \<and> run_script ?tm (draws [1, 0, 5]) ?os = Some (0, w') \<or>
            (r = Raised EOFError \<or> r = Raised OSError) \<and>
            run_script ?tm (draws [1, 0, 5]) ?os = Some (1, w'))"
    by blast
  from run run' have r1: "r1 = SystemExit None" and w1: "w1 = ?w1" by simp_all
  have "Key key_q \<in> set (hist w1) \<and> is_quit key_q"
    unfolding w1 by (simp add: is_quit_key_q)
  then have "\<exists>k. Key k \<in> set (hist w1) \<and> is_quit k" by blast
  with c have "run_script ?tm (draws [1, 0, 5]) ?os = Some (0, w1) \<and>
           list_all (\<lambda>e. \<not> completion_output e) (hist w1)" by (simp only: if_True)
  then have "run_script ?tm (draws [1, 0, 5]) ?os = Some (0, ?w1) \<and>
      list_all (\<lambda>e. \<not> completion_output e)
     [Prompt ''banana'' ''apple'', Key key_right, Echo_right,
      Prompt ''cherry'' ''apple'', Key key_q, Echo_q]"
    unfolding w1 by simp
  with s v show ?thesis by (intro conjI) simp_all
qed

end
